theory Spec2Isabelle
  imports Main "HOL-Library.Sublist"
begin

section \<open>Python values used by the voting ledger\<close>

text \<open>
  The ledger of \<^verbatim>\<open>voting.py\<close> is one class, \<^verbatim>\<open>BlockchainVotingSystem\<close>. Its methods are
  embedded as functions that take the object's state and return the new state together
  with the returned value or the raised exception.

  Conventions of the embedding:
  \<^item> a Python \<^verbatim>\<open>str\<close> is a \<^typ>\<open>string\<close> whose characters are code points below 256;
  \<^item> a Python \<^verbatim>\<open>int\<close> is an \<^typ>\<open>int\<close>; lengths and counters, which start at 0 and are
    only incremented, are \<^typ>\<open>nat\<close>; the decimal text of an integer is taken without the
    interpreter's configurable limit on the number of digits;
  \<^item> a \<^verbatim>\<open>datetime\<close> is the number of microseconds since 0001-01-01T00:00:00; a
    timestamp field holds the instant whose ISO text the source stores, and every reading
    of the clock (\<^verbatim>\<open>datetime.now()\<close>) is an argument of the operation that reads it;
  \<^item> \<^verbatim>\<open>hashlib.sha256(b).hexdigest()\<close> is library code: the digest function is an
    argument \<open>sha256_hexdigest\<close> of every operation that hashes;
  \<^item> the lists of votes are objects in a store, since \<^verbatim>\<open>create_block\<close> copies the pending
    list and \<^verbatim>\<open>cast_vote\<close> appends to it in place.
\<close>

type_synonym datetime = int
type_synonym addr = nat

datatype error = ValueError string | KeyError string | OverflowError string | TypeError string

subsection \<open>Decimal text of an integer\<close>

definition digit_char :: "nat \<Rightarrow> char" where
  "digit_char d = ''0123456789'' ! d"

fun str_nat :: "nat \<Rightarrow> string" where
  "str_nat n = (if n < 10 then [digit_char n] else str_nat (n div 10) @ [digit_char (n mod 10)])"

declare str_nat.simps [simp del]

definition str_int :: "int \<Rightarrow> string" where
  "str_int i = (if i < 0 then CHR ''-'' # str_nat (nat (- i)) else str_nat (nat i))"

subsection \<open>\<^verbatim>\<open>repr\<close> of a string and of a list of strings\<close>

definition hex_digit :: "nat \<Rightarrow> char" where
  "hex_digit d = ''0123456789abcdef'' ! d"

definition printable :: "char \<Rightarrow> bool" where
  "printable c = (let n = (of_char c :: nat) in (32 \<le> n \<and> n < 127) \<or> (161 \<le> n \<and> n \<noteq> 173))"

definition repr_char :: "char \<Rightarrow> char \<Rightarrow> string" where
  "repr_char q c =
     (if c = q \<or> c = CHR 0x5C then [CHR 0x5C, c]
      else if c = CHR 0x09 then [CHR 0x5C, CHR ''t'']
      else if c = CHR 0x0A then [CHR 0x5C, CHR ''n'']
      else if c = CHR 0x0D then [CHR 0x5C, CHR ''r'']
      else if printable c then [c]
      else [CHR 0x5C, CHR ''x'', hex_digit ((of_char c :: nat) div 16),
            hex_digit ((of_char c :: nat) mod 16)])"

definition repr_quote :: "string \<Rightarrow> char" where
  "repr_quote s = (if CHR 0x27 \<in> set s \<and> CHR 0x22 \<notin> set s then CHR 0x22 else CHR 0x27)"

definition repr_str :: "string \<Rightarrow> string" where
  "repr_str s = (let q = repr_quote s in q # concat (map (repr_char q) s) @ [q])"

fun join :: "string \<Rightarrow> string list \<Rightarrow> string" where
  "join sep [] = []"
| "join sep [x] = x"
| "join sep (x # y # ys) = x @ sep @ join sep (y # ys)"

definition repr_list :: "string list \<Rightarrow> string" where
  "repr_list xs = ''['' @ join '', '' (map repr_str xs) @ '']''"

subsection \<open>\<^verbatim>\<open>str.encode()\<close>: UTF-8\<close>

definition encode_char :: "char \<Rightarrow> string" where
  "encode_char c =
     (let n = (of_char c :: nat)
      in if n < 128 then [c] else [char_of (192 + n div 64), char_of (128 + n mod 64)])"

definition encode :: "string \<Rightarrow> string" where
  "encode s = concat (map encode_char s)"

subsection \<open>\<^verbatim>\<open>timedelta(days=d)\<close> and \<^verbatim>\<open>datetime + timedelta\<close>\<close>

definition timedelta_days :: "int \<Rightarrow> error + int" where
  "timedelta_days d =
     (if d < - 2147483648 \<or> 2147483647 < d
      then Inl (OverflowError ''Python int too large to convert to C int'')
      else if \<bar>d\<bar> > 999999999
      then Inl (OverflowError (''days='' @ str_int d @ ''; must have magnitude <= 999999999''))
      else Inr (d * 86400000000))"

definition datetime_add :: "datetime \<Rightarrow> int \<Rightarrow> error + datetime" where
  "datetime_add t td =
     (let r = t + td
      in if 0 \<le> r \<and> r < 3652059 * 86400000000 then Inr r
         else Inl (OverflowError ''date value out of range''))"

subsection \<open>A \<^verbatim>\<open>dict\<close> in insertion order\<close>

fun dict_get :: "('k \<times> 'v) list \<Rightarrow> 'k \<Rightarrow> 'v option" where
  "dict_get [] k = None"
| "dict_get ((k', v') # d) k = (if k' = k then Some v' else dict_get d k)"

fun dict_set :: "('k \<times> 'v) list \<Rightarrow> 'k \<Rightarrow> 'v \<Rightarrow> ('k \<times> 'v) list" where
  "dict_set [] k v = [(k, v)]"
| "dict_set ((k', v') # d) k v = (if k' = k then (k', v) # d else (k', v') # dict_set d k v)"

section \<open>The ledger\<close>

record vote =
  voter_id :: string
  candidate :: string
  timestamp :: datetime

record block =
  index :: nat
  block_timestamp :: datetime
  votes :: addr
  block_proof :: int
  previous_hash :: string
  block_election_name :: string

text \<open>
  The fields of \<^verbatim>\<open>self\<close>, and the store of vote lists: \<open>store s a\<close> is the content of the
  list object at address \<open>a\<close>, and \<open>fresh s\<close> is the next address never handed out.
  \<open>pending_votes\<close> and the \<open>votes\<close> field of a block hold addresses.
\<close>

record voting_system =
  chain :: "block list"
  pending_votes :: addr
  candidates :: "string list"
  election_name :: string
  election_start :: datetime
  election_end :: datetime
  voted_voters :: "string set"
  store :: "addr \<Rightarrow> vote list"
  fresh :: addr

subsection \<open>\<^verbatim>\<open>create_block\<close>\<close>

definition create_block :: "datetime \<Rightarrow> int \<Rightarrow> string \<Rightarrow> voting_system \<Rightarrow> block \<times> voting_system" where
  "create_block now proof_value prev s =
     (let copy = fresh s;
          blk = \<lparr>index = length (chain s) + 1,
                 block_timestamp = now,
                 votes = copy,
                 block_proof = proof_value,
                 previous_hash = prev,
                 block_election_name = election_name s\<rparr>;
          empty = copy + 1
      in (blk, s\<lparr>store := (store s)(copy := store s (pending_votes s), empty := []),
                  fresh := copy + 2,
                  pending_votes := empty,
                  chain := chain s @ [blk]\<rparr>))"

subsection \<open>\<^verbatim>\<open>__init__\<close>\<close>

definition init ::
  "datetime \<Rightarrow> datetime \<Rightarrow> datetime \<Rightarrow> string \<Rightarrow> string list \<Rightarrow> int \<Rightarrow> error + voting_system" where
  "init now_start now_end now_genesis name cands voting_duration_days =
     (case timedelta_days voting_duration_days of
        Inl e \<Rightarrow> Inl e
      | Inr td \<Rightarrow>
          (case datetime_add now_end td of
             Inl e \<Rightarrow> Inl e
           | Inr e_end \<Rightarrow>
               Inr (snd (create_block now_genesis 100 ''0''
                      \<lparr>chain = [], pending_votes = 0, candidates = cands,
                       election_name = name, election_start = now_start,
                       election_end = e_end, voted_voters = {},
                       store = (\<lambda>a. []), fresh = 1\<rparr>))))"

subsection \<open>\<^verbatim>\<open>hash_voter_id\<close> and \<^verbatim>\<open>cast_vote\<close>\<close>

definition hash_voter_id :: "(string \<Rightarrow> string) \<Rightarrow> string \<Rightarrow> string" where
  "hash_voter_id sha256_hexdigest v = sha256_hexdigest (encode v)"

definition cast_vote ::
  "(string \<Rightarrow> string) \<Rightarrow> datetime \<Rightarrow> string \<Rightarrow> string \<Rightarrow> voting_system
     \<Rightarrow> (error + vote) \<times> voting_system" where
  "cast_vote sha256_hexdigest now v c s =
     (if c \<notin> set (candidates s)
      then (Inl (ValueError (''Invalid candidate. Choose from: '' @ repr_list (candidates s))), s)
      else if v \<in> voted_voters s
      then (Inl (ValueError ''This voter has already cast a vote''), s)
      else
        (let vt = \<lparr>voter_id = hash_voter_id sha256_hexdigest v, candidate = c, timestamp = now\<rparr>
         in (Inr vt,
             s\<lparr>store := (store s)(pending_votes s := store s (pending_votes s) @ [vt]),
               voted_voters := insert v (voted_voters s)\<rparr>)))"

text \<open>The specification's names for the two exceptions of \<^verbatim>\<open>cast_vote\<close>.\<close>

definition InvalidCandidate :: "string list \<Rightarrow> error" where
  "InvalidCandidate cands = ValueError (''Invalid candidate. Choose from: '' @ repr_list cands)"

definition DuplicateVoter :: error where
  "DuplicateVoter = ValueError ''This voter has already cast a vote''"

subsection \<open>\<^verbatim>\<open>valid_proof\<close> and \<^verbatim>\<open>proof_of_work\<close>\<close>

definition valid_proof :: "(string \<Rightarrow> string) \<Rightarrow> int \<Rightarrow> int \<Rightarrow> bool" where
  "valid_proof sha256_hexdigest last_proof proof_value =
     (let guess = encode (str_int last_proof @ str_int proof_value);
          guess_hash = sha256_hexdigest guess
      in take 4 guess_hash = ''0000'')"

text \<open>The \<^verbatim>\<open>while\<close> loop of \<^verbatim>\<open>proof_of_work\<close>; \<open>None\<close> is a loop that never ends.\<close>

partial_function (option) proof_of_work_loop :: "(string \<Rightarrow> string) \<Rightarrow> int \<Rightarrow> int \<Rightarrow> int option" where
  "proof_of_work_loop sha256_hexdigest last_proof proof_value =
     (if \<not> valid_proof sha256_hexdigest last_proof proof_value
      then proof_of_work_loop sha256_hexdigest last_proof (proof_value + 1)
      else Some proof_value)"

definition proof_of_work :: "(string \<Rightarrow> string) \<Rightarrow> int \<Rightarrow> int option" where
  "proof_of_work sha256_hexdigest last_proof = proof_of_work_loop sha256_hexdigest last_proof 0"

subsection \<open>\<^verbatim>\<open>get_election_results\<close>\<close>

record election_results =
  result_election_name :: string
  total_votes :: nat
  results :: "(string \<times> nat) list"
  winner :: string

text \<open>The dict comprehension \<^verbatim>\<open>{candidate: 0 for candidate in self.candidates}\<close>.\<close>

definition zero_counts :: "string list \<Rightarrow> (string \<times> nat) list" where
  "zero_counts cands = fold (\<lambda>c d. dict_set d c 0) cands []"

text \<open>\<^verbatim>\<open>vote_counts[k] += 1\<close>: a missing key raises \<^verbatim>\<open>KeyError\<close>.\<close>

definition increment :: "(string \<times> nat) list \<Rightarrow> string \<Rightarrow> error + (string \<times> nat) list" where
  "increment d k = (case dict_get d k of None \<Rightarrow> Inl (KeyError k) | Some n \<Rightarrow> Inr (dict_set d k (n + 1)))"

fun count_votes :: "vote list \<Rightarrow> (string \<times> nat) list \<Rightarrow> error + (string \<times> nat) list" where
  "count_votes [] d = Inr d"
| "count_votes (v # vs) d =
     (case increment d (candidate v) of Inl e \<Rightarrow> Inl e | Inr d' \<Rightarrow> count_votes vs d')"

fun count_blocks ::
  "(addr \<Rightarrow> vote list) \<Rightarrow> block list \<Rightarrow> (string \<times> nat) list \<Rightarrow> error + (string \<times> nat) list" where
  "count_blocks st [] d = Inr d"
| "count_blocks st (b # bs) d =
     (case count_votes (st (votes b)) d of Inl e \<Rightarrow> Inl e | Inr d' \<Rightarrow> count_blocks st bs d')"

text \<open>
  \<^verbatim>\<open>max(vote_counts, key=vote_counts.get)\<close> walks the keys in insertion order, looks each
  one up in the same dict, and keeps the current best unless the next value is greater.
  \<^verbatim>\<open>get\<close> gives \<^verbatim>\<open>None\<close> for a missing key, which cannot be compared with a number.
\<close>

definition none_comparison :: string where
  "none_comparison =
     [CHR 0x27] @ ''>'' @ [CHR 0x27] @ '' not supported between instances of ''
       @ [CHR 0x27] @ ''NoneType'' @ [CHR 0x27] @ '' and '' @ [CHR 0x27] @ ''int'' @ [CHR 0x27]"

fun max_loop :: "(string \<times> nat) list \<Rightarrow> string \<Rightarrow> nat \<Rightarrow> string list \<Rightarrow> error + string" where
  "max_loop d best best_val [] = Inr best"
| "max_loop d best best_val (k # ks) =
     (case dict_get d k of
        None \<Rightarrow> Inl (TypeError none_comparison)
      | Some n \<Rightarrow> if n > best_val then max_loop d k n ks else max_loop d best best_val ks)"

definition max_key :: "(string \<times> nat) list \<Rightarrow> error + string" where
  "max_key d =
     (case d of
        [] \<Rightarrow> Inl (ValueError ''max() arg is an empty sequence'')
      | (k, n) # rest \<Rightarrow> max_loop d k n (map fst rest))"

definition get_election_results ::
  "bool \<Rightarrow> voting_system \<Rightarrow> (error + election_results) \<times> voting_system" where
  "get_election_results force_close s =
     (case count_blocks (store s) (chain s) (zero_counts (candidates s)) of
        Inl e \<Rightarrow> (Inl e, s)
      | Inr vote_counts \<Rightarrow>
          (case max_key vote_counts of
             Inl e \<Rightarrow> (Inl e, s)
           | Inr w \<Rightarrow>
               (Inr \<lparr>result_election_name = election_name s,
                     total_votes = sum_list (map snd vote_counts),
                     results = vote_counts,
                     winner = w\<rparr>, s)))"

subsection \<open>Sequences of calls\<close>

datatype call = Cast_vote datetime string string | Create_block datetime int string

fun step :: "(string \<Rightarrow> string) \<Rightarrow> call \<Rightarrow> voting_system \<Rightarrow> voting_system" where
  "step h (Cast_vote now v c) s = snd (cast_vote h now v c s)"
| "step h (Create_block now p prev) s = snd (create_block now p prev s)"

definition run :: "(string \<Rightarrow> string) \<Rightarrow> call list \<Rightarrow> voting_system \<Rightarrow> voting_system" where
  "run h calls s = fold (step h) calls s"

subsection \<open>Reading decimal text, and the specification's \<^verbatim>\<open>is_valid_proof\<close>\<close>

text \<open>
  \<open>dec_int\<close> reads a decimal numeral back; it is used to state that \<open>str_int\<close> is the
  decimal text of its argument. \<open>is_valid_proof_spec\<close> follows the words of the
  specification: the digest of the two decimal texts, concatenated with no separator,
  begins with four zero characters.
\<close>

definition digit_val :: "char \<Rightarrow> nat" where
  "digit_val c = of_char c - 48"

definition dec_nat :: "string \<Rightarrow> nat" where
  "dec_nat s = fold (\<lambda>c a. 10 * a + digit_val c) s 0"

definition dec_int :: "string \<Rightarrow> int" where
  "dec_int s = (case s of [] \<Rightarrow> 0 | c # r \<Rightarrow> if c = CHR ''-'' then - int (dec_nat r) else int (dec_nat s))"

definition is_valid_proof_spec :: "(string \<Rightarrow> string) \<Rightarrow> int \<Rightarrow> int \<Rightarrow> bool" where
  "is_valid_proof_spec digest last_proof candidate_proof =
     prefix (replicate 4 (CHR ''0'')) (digest (str_int last_proof @ str_int candidate_proof))"


subsection \<open>A small digest for running the model\<close>

text \<open>
  Every theorem below holds for every digest function. \<open>sample_digest\<close> is a small one
  on which the operations can be evaluated at concrete inputs.
\<close>

definition sample_digest :: "string \<Rightarrow> string" where
  "sample_digest bs =
     (if sum_list (map of_char bs) mod 5 = (0::nat) then ''0000e3b0c442'' else ''e3b0c44298fc'')"


subsection \<open>An election to run the model on\<close>

text \<open>The election of \<^verbatim>\<open>main()\<close>, with every clock reading 0.\<close>

definition demo_election :: voting_system where
  "demo_election = projr (init 0 0 0 ''Student Council Election'' [''Alice'', ''Bob'', ''Charlie''] 7)"


subsection \<open>Well-formed stores and the log of admitted votes\<close>

text \<open>
  An address handed out is below \<open>fresh\<close>. \<open>allocated\<close> says so for the pending list;
  \<open>separated\<close> also says that the vote list of every block was allocated before the
  pending list, as \<^verbatim>\<open>create_block\<close> does. \<open>pending_log\<close> collects the votes that
  \<^verbatim>\<open>cast_vote\<close> returned since the last \<^verbatim>\<open>create_block\<close>, in the order of the calls.
\<close>

definition allocated :: "voting_system \<Rightarrow> bool" where
  "allocated s = (pending_votes s < fresh s)"

definition separated :: "voting_system \<Rightarrow> bool" where
  "separated s = (pending_votes s < fresh s \<and> list_all (\<lambda>b. votes b < pending_votes s) (chain s))"

fun pending_log ::
  "(string \<Rightarrow> string) \<Rightarrow> call list \<Rightarrow> voting_system \<Rightarrow> vote list \<Rightarrow> vote list" where
  "pending_log h [] s acc = acc"
| "pending_log h (Cast_vote now v c # cs) s acc =
     (case cast_vote h now v c s of
        (Inr vt, s') \<Rightarrow> pending_log h cs s' (acc @ [vt])
      | (Inl e, s') \<Rightarrow> pending_log h cs s' acc)"
| "pending_log h (Create_block now p prev # cs) s acc =
     pending_log h cs (snd (create_block now p prev s)) []"


subsection \<open>Committed votes\<close>

text \<open>
  The votes of all blocks in chain order, and the number of them for one candidate.
  \<open>consistent\<close> is the invariant of the reachable states: the store is \<open>separated\<close> and
  every pending or committed vote names a configured candidate.
\<close>

definition committed_votes :: "voting_system \<Rightarrow> vote list" where
  "committed_votes s = concat (map (\<lambda>b. store s (votes b)) (chain s))"

definition votes_for :: "voting_system \<Rightarrow> string \<Rightarrow> nat" where
  "votes_for s c = length (filter (\<lambda>v. candidate v = c) (committed_votes s))"

definition consistent :: "voting_system \<Rightarrow> bool" where
  "consistent s =
     (separated s
      \<and> list_all (\<lambda>v. candidate v \<in> set (candidates s)) (store s (pending_votes s))
      \<and> list_all (\<lambda>b. list_all (\<lambda>v. candidate v \<in> set (candidates s)) (store s (votes b)))
           (chain s))"


text \<open>
  \<open>demo_final\<close> is the state of \<^verbatim>\<open>main()\<close> after its five votes and its block, with the
  clock readings 1 to 6; \<open>empty_election\<close> is an election with no candidate.
\<close>

definition demo_final :: voting_system where
  "demo_final =
     run sample_digest
       [Cast_vote 1 ''voter1@school.edu'' ''Alice'',
        Cast_vote 2 ''voter2@school.edu'' ''Bob'',
        Cast_vote 3 ''voter3@school.edu'' ''Charlie'',
        Cast_vote 4 ''voter4@school.edu'' ''Alice'',
        Cast_vote 5 ''voter5@school.edu'' ''Bob'',
        Create_block 6 2 ''prev'']
       demo_election"

definition empty_election :: voting_system where
  "empty_election = projr (init 0 0 0 ''No candidates'' [] 7)"

text \<open>
  \<open>demo_later\<close> is the same election with two blocks of votes in which the first listed
  candidate has the fewest votes and the other two tie: Alice 1, Bob 2, Charlie 2.
\<close>

definition demo_later :: voting_system where
  "demo_later =
     run sample_digest
       [Cast_vote 1 ''voter1@school.edu'' ''Bob'',
        Cast_vote 2 ''voter2@school.edu'' ''Charlie'',
        Create_block 3 2 ''prev'',
        Cast_vote 4 ''voter3@school.edu'' ''Charlie'',
        Cast_vote 5 ''voter4@school.edu'' ''Alice'',
        Cast_vote 6 ''voter5@school.edu'' ''Bob'',
        Create_block 7 8 ''prev2'']
       demo_election"


section \<open>Properties\<close>

subsection \<open>Decimal text and UTF-8 of digits\<close>

lemma digit_char_cases:
  "d < 10 \<Longrightarrow> digit_char d \<in> set ''0123456789''"
  unfolding digit_char_def by (rule nth_mem) simp

lemma lt10: "(d::nat) < 10 \<Longrightarrow> d = 0 \<or> d = 1 \<or> d = 2 \<or> d = 3 \<or> d = 4 \<or> d = 5 \<or> d = 6 \<or> d = 7 \<or> d = 8 \<or> d = 9"
  by arith

lemma digit_val_digit_char: "d < 10 \<Longrightarrow> digit_val (digit_char d) = d"
  by (drule lt10) (elim disjE; simp add: digit_val_def digit_char_def)

lemma str_nat_digits: "set (str_nat n) \<subseteq> set ''0123456789''"
proof (induction n rule: str_nat.induct)
  case (1 n)
  show ?case
  proof (cases "n < 10")
    case True
    then show ?thesis using digit_char_cases [of n] by (subst str_nat.simps) simp
  next
    case False
    have "n mod 10 < 10" by simp
    then have "digit_char (n mod 10) \<in> set ''0123456789''" by (rule digit_char_cases)
    with False 1 show ?thesis by (subst str_nat.simps) simp
  qed
qed

lemma dec_nat_snoc: "dec_nat (s @ [c]) = 10 * dec_nat s + digit_val c"
  by (simp add: dec_nat_def)

lemma dec_nat_str_nat: "dec_nat (str_nat n) = n"
proof (induction n rule: str_nat.induct)
  case (1 n)
  show ?case
  proof (cases "n < 10")
    case True
    then show ?thesis by (subst str_nat.simps) (simp add: dec_nat_def digit_val_digit_char)
  next
    case False
    with 1 show ?thesis
      by (subst str_nat.simps) (simp add: dec_nat_snoc digit_val_digit_char)
  qed
qed

lemma str_nat_nonempty: "str_nat n \<noteq> []"
  by (subst str_nat.simps) simp

lemma hd_str_nat_not_minus: "hd (str_nat n) \<noteq> CHR ''-''"
proof -
  have "hd (str_nat n) \<in> set (str_nat n)" by (simp add: str_nat_nonempty)
  with str_nat_digits [of n] have "hd (str_nat n) \<in> set ''0123456789''" by blast
  then show ?thesis by auto
qed

lemma dec_int_str_int: "dec_int (str_int i) = i"
proof (cases "i < 0")
  case True
  then show ?thesis by (simp add: dec_int_def str_int_def dec_nat_str_nat)
next
  case False
  obtain c r where cr: "str_nat (nat i) = c # r" using str_nat_nonempty [of "nat i"] by (cases "str_nat (nat i)") auto
  with hd_str_nat_not_minus [of "nat i"] have "c \<noteq> CHR ''-''" by simp
  with False cr dec_nat_str_nat [of "nat i"] show ?thesis by (simp add: dec_int_def str_int_def)
qed

lemma encode_ascii: "\<forall>c \<in> set s. (of_char c :: nat) < 128 \<Longrightarrow> encode s = s"
  by (induction s) (simp_all add: encode_def encode_char_def)

lemma digit_ascii: "c \<in> set ''0123456789'' \<Longrightarrow> (of_char c :: nat) < 128"
  by auto

lemma str_nat_ascii: "c \<in> set (str_nat n) \<Longrightarrow> (of_char c :: nat) < 128"
  using str_nat_digits [of n] digit_ascii [of c] by blast

lemma str_int_ascii: "c \<in> set (str_int i) \<Longrightarrow> (of_char c :: nat) < 128"
proof (cases "i < 0")
  case True
  assume "c \<in> set (str_int i)"
  with True have "c = CHR ''-'' \<or> c \<in> set (str_nat (nat (- i)))" by (simp add: str_int_def)
  then show ?thesis
  proof
    assume "c = CHR ''-''" then show ?thesis by simp
  next
    assume "c \<in> set (str_nat (nat (- i)))" then show ?thesis by (rule str_nat_ascii)
  qed
next
  case False
  assume "c \<in> set (str_int i)"
  with False have "c \<in> set (str_nat (nat i))" by (simp add: str_int_def)
  then show ?thesis by (rule str_nat_ascii)
qed

subsection \<open>Proof of work\<close>

lemma encode_str_int: "encode (str_int a @ str_int b) = str_int a @ str_int b"
proof (rule encode_ascii, rule ballI)
  fix c assume "c \<in> set (str_int a @ str_int b)"
  then have "c \<in> set (str_int a) \<or> c \<in> set (str_int b)" by simp
  then show "(of_char c :: nat) < 128" using str_int_ascii by blast
qed

lemma take_eq_iff_prefix:
  assumes "length ys = n"
  shows "(take n xs = ys) = prefix ys xs"
proof
  assume "take n xs = ys"
  then show "prefix ys xs" using take_is_prefix [of n xs] by simp
next
  assume "prefix ys xs"
  then obtain zs where "xs = ys @ zs" by (auto simp: prefix_def)
  with assms show "take n xs = ys" by simp
qed

lemma take4_zeros: "(take 4 xs = ''0000'') = prefix (replicate 4 (CHR ''0'')) xs"
proof -
  have "replicate 4 (CHR ''0'') = ''0000''" by (simp add: numeral_eq_Suc)
  then show ?thesis using take_eq_iff_prefix [of "''0000''" 4 xs] by simp
qed

text \<open>
  C4: \<open>valid_proof last_proof proof\<close> is a function of its two arguments (and of the
  digest function) alone. It holds exactly when the hexadecimal digest of the decimal text
  of \<open>last_proof\<close> followed directly by the decimal text of \<open>proof\<close> begins with four
  zero characters; \<open>str_int\<close> is the decimal text, since reading it back gives the number.
\<close>

theorem valid_proof_spec:
  "valid_proof h last_proof p = is_valid_proof_spec h last_proof p
   \<and> dec_int (str_int last_proof) = last_proof \<and> dec_int (str_int p) = p"
  by (simp add: valid_proof_def is_valid_proof_spec_def encode_str_int dec_int_str_int take4_zeros)

lemma loop_finds_first:
  "p0 \<le> x \<Longrightarrow> valid_proof h lp x \<Longrightarrow>
   \<exists>p. proof_of_work_loop h lp p0 = Some p \<and> p0 \<le> p \<and> p \<le> x \<and> valid_proof h lp p
       \<and> (\<forall>y. p0 \<le> y \<and> y < p \<longrightarrow> \<not> valid_proof h lp y)"
proof (induction "nat (x - p0)" arbitrary: p0)
  case 0
  then have "p0 = x" by simp
  with 0 show ?case by (subst proof_of_work_loop.simps) auto
next
  case (Suc n)
  show ?case
  proof (cases "valid_proof h lp p0")
    case True
    with Suc.prems show ?thesis by (subst proof_of_work_loop.simps) auto
  next
    case False
    from Suc.hyps(2) have n: "n = nat (x - (p0 + 1))" and le: "p0 + 1 \<le> x" by simp_all
    from Suc.hyps(1) [OF n le Suc.prems(2)]
    obtain p where p: "proof_of_work_loop h lp (p0 + 1) = Some p" "p0 + 1 \<le> p" "p \<le> x"
      "valid_proof h lp p" "\<forall>y. p0 + 1 \<le> y \<and> y < p \<longrightarrow> \<not> valid_proof h lp y"
      by blast
    have "proof_of_work_loop h lp p0 = Some p"
      using False p(1) by (subst proof_of_work_loop.simps) simp
    moreover have "\<forall>y. p0 \<le> y \<and> y < p \<longrightarrow> \<not> valid_proof h lp y"
    proof (intro allI impI)
      fix y assume y: "p0 \<le> y \<and> y < p"
      show "\<not> valid_proof h lp y"
      proof (cases "y = p0")
        case True with False show ?thesis by simp
      next
        case False
        with y have "p0 + 1 \<le> y \<and> y < p" by simp
        with p(5) show ?thesis by blast
      qed
    qed
    ultimately show ?thesis using p(2,3,4) by auto
  qed
qed

lemma loop_result_valid:
  assumes "proof_of_work_loop h lp p0 = Some p"
  shows "p0 \<le> p \<and> valid_proof h lp p"
proof (rule proof_of_work_loop.raw_induct
         [where P = "\<lambda>h lp p0 p. p0 \<le> p \<and> valid_proof h lp p", OF _ assms])
  fix loop :: "(string \<Rightarrow> string) \<Rightarrow> int \<Rightarrow> int \<Rightarrow> int option" and h lp p0 p
  assume IH: "\<And>h lp p0 p. loop h lp p0 = Some p \<Longrightarrow> p0 \<le> p \<and> valid_proof h lp p"
    and eq: "(if \<not> valid_proof h lp p0 then loop h lp (p0 + 1) else Some p0) = Some p"
  show "p0 \<le> p \<and> valid_proof h lp p"
  proof (cases "valid_proof h lp p0")
    case True
    with eq show ?thesis by simp
  next
    case False
    with eq have "loop h lp (p0 + 1) = Some p" by simp
    from IH [OF this] show ?thesis by simp
  qed
qed

lemma proof_of_work_diverges:
  "(\<And>x. 0 \<le> x \<Longrightarrow> \<not> valid_proof h lp x) \<Longrightarrow> proof_of_work h lp = None"
proof (rule ccontr)
  assume none: "\<And>x. 0 \<le> x \<Longrightarrow> \<not> valid_proof h lp x"
  assume "proof_of_work h lp \<noteq> None"
  then obtain p where "proof_of_work_loop h lp 0 = Some p" by (auto simp: proof_of_work_def)
  then have "0 \<le> p \<and> valid_proof h lp p" by (rule loop_result_valid)
  with none show False by blast
qed

text \<open>
  C5: when some non-negative integer satisfies \<open>valid_proof last_proof\<close>, the search of
  \<open>proof_of_work\<close> ends, and it returns the smallest non-negative integer that satisfies it.
\<close>

theorem proof_of_work_least:
  assumes "0 \<le> x" and "valid_proof h last_proof x"
  shows "\<exists>p. proof_of_work h last_proof = Some p \<and> 0 \<le> p \<and> p \<le> x
              \<and> valid_proof h last_proof p
              \<and> (\<forall>y. 0 \<le> y \<and> y < p \<longrightarrow> \<not> valid_proof h last_proof y)"
  unfolding proof_of_work_def using assms by (rule loop_finds_first)

lemma sample_valid_2: "valid_proof sample_digest 100 2"
  by code_simp

lemma sample_invalid_0: "\<not> valid_proof sample_digest 100 0"
  by code_simp

lemma sample_invalid_1: "\<not> valid_proof sample_digest 100 1"
  by code_simp

theorem proof_of_work_least_witness:
  "(0::int) \<le> 2 \<and> valid_proof sample_digest 100 2 \<and> proof_of_work sample_digest 100 = Some 2"
proof -
  have le: "(0::int) \<le> 2" by simp
  from proof_of_work_least [OF le sample_valid_2]
  obtain p where p: "proof_of_work sample_digest 100 = Some p" "0 \<le> p" "p \<le> 2"
    "valid_proof sample_digest 100 p"
    by blast
  from p(2,3) have "p = 0 \<or> p = 1 \<or> p = 2" by arith
  with p(4) sample_invalid_0 sample_invalid_1 have "p = 2" by blast
  with p(1) sample_valid_2 show ?thesis by simp
qed

subsection \<open>Rejected candidates\<close>

lemma sublist_join: "k \<in> set xs \<Longrightarrow> sublist k (join sep xs)"
proof (induction sep xs rule: join.induct)
  case (1 sep)
  then show ?case by simp
next
  case (2 sep x)
  then show ?case by simp
next
  case (3 sep x y ys)
  show ?case
  proof (cases "k = x")
    case True
    then show ?thesis by simp
  next
    case False
    with 3 have "sublist k (join sep (y # ys))" by simp
    then obtain ps ss where "join sep (y # ys) = ps @ k @ ss" by (auto simp: sublist_def)
    then have "join sep (x # y # ys) = (x @ sep @ ps) @ k @ ss" by simp
    then show ?thesis unfolding sublist_def by blast
  qed
qed

lemma sublist_repr_list: "k \<in> set xs \<Longrightarrow> sublist (repr_str k) (repr_list xs)"
proof -
  assume "k \<in> set xs"
  then have "repr_str k \<in> set (map repr_str xs)" by simp
  then have "sublist (repr_str k) (join '', '' (map repr_str xs))" by (rule sublist_join)
  then obtain ps ss where "join '', '' (map repr_str xs) = ps @ repr_str k @ ss"
    by (auto simp: sublist_def)
  then have "repr_list xs = (''['' @ ps) @ repr_str k @ (ss @ '']'')" by (simp add: repr_list_def)
  then show ?thesis unfolding sublist_def by blast
qed

lemma sublist_message:
  "sublist k m \<Longrightarrow> sublist k (p @ m)"
  unfolding sublist_def by (metis append.assoc)

text \<open>
  C2: \<open>cast_vote\<close> with a candidate outside the election's candidates fails, whoever the
  voter is, with the \<open>InvalidCandidate\<close> error; its message contains the \<open>repr\<close> of every
  configured candidate; and the state, so the pending list and the voter registry, is
  unchanged.
\<close>

theorem cast_vote_invalid_candidate:
  assumes "c \<notin> set (candidates s)"
  shows "cast_vote h now v c s = (Inl (InvalidCandidate (candidates s)), s)
       \<and> (\<exists>msg. InvalidCandidate (candidates s) = ValueError msg
                \<and> (\<forall>k \<in> set (candidates s). sublist (repr_str k) msg))
       \<and> store (snd (cast_vote h now v c s)) (pending_votes (snd (cast_vote h now v c s)))
           = store s (pending_votes s)
       \<and> voted_voters (snd (cast_vote h now v c s)) = voted_voters s"
proof -
  have 1: "cast_vote h now v c s = (Inl (InvalidCandidate (candidates s)), s)"
    using assms by (simp add: cast_vote_def InvalidCandidate_def)
  have 2: "\<forall>k \<in> set (candidates s).
             sublist (repr_str k) (''Invalid candidate. Choose from: '' @ repr_list (candidates s))"
    by (intro ballI sublist_message sublist_repr_list)
  from 1 2 show ?thesis by (simp add: InvalidCandidate_def)
qed

lemma demo_init:
  "init 0 0 0 ''Student Council Election'' [''Alice'', ''Bob'', ''Charlie''] 7 = Inr demo_election"
  by (simp add: demo_election_def init_def timedelta_days_def datetime_add_def)

lemma demo_candidates: "candidates demo_election = [''Alice'', ''Bob'', ''Charlie'']"
  by (simp add: demo_election_def init_def timedelta_days_def datetime_add_def create_block_def Let_def)

theorem cast_vote_invalid_candidate_witness:
  "''Dave'' \<notin> set (candidates demo_election)
   \<and> cast_vote sample_digest 5 ''voter9'' ''Dave'' demo_election
       = (Inl (ValueError ''Invalid candidate. Choose from: ['Alice', 'Bob', 'Charlie']''), demo_election)"
proof -
  have n: "''Dave'' \<notin> set (candidates demo_election)" by (simp add: demo_candidates)
  have m: "InvalidCandidate (candidates demo_election)
           = ValueError ''Invalid candidate. Choose from: ['Alice', 'Bob', 'Charlie']''"
    by (simp add: demo_candidates InvalidCandidate_def repr_list_def repr_str_def repr_quote_def
          repr_char_def printable_def Let_def)
  from cast_vote_invalid_candidate [OF n, of sample_digest 5 "''voter9''"] m n show ?thesis by simp
qed

subsection \<open>What one call changes\<close>

lemma create_block_eq:
  "create_block now p prev s =
     (\<lparr>index = length (chain s) + 1, block_timestamp = now, votes = fresh s, block_proof = p,
       previous_hash = prev, block_election_name = election_name s\<rparr>,
      s\<lparr>store := (store s)(fresh s := store s (pending_votes s), fresh s + 1 := []),
        fresh := fresh s + 2,
        pending_votes := fresh s + 1,
        chain := chain s @ [\<lparr>index = length (chain s) + 1, block_timestamp = now,
                             votes = fresh s, block_proof = p, previous_hash = prev,
                             block_election_name = election_name s\<rparr>]\<rparr>)"
  by (simp add: create_block_def Let_def)

lemma cast_vote_cases:
  "cast_vote h now v c s =
     (if c \<notin> set (candidates s) then (Inl (InvalidCandidate (candidates s)), s)
      else if v \<in> voted_voters s then (Inl DuplicateVoter, s)
      else (Inr \<lparr>voter_id = hash_voter_id h v, candidate = c, timestamp = now\<rparr>,
            s\<lparr>store := (store s)(pending_votes s := store s (pending_votes s)
                       @ [\<lparr>voter_id = hash_voter_id h v, candidate = c, timestamp = now\<rparr>]),
              voted_voters := insert v (voted_voters s)\<rparr>))"
  by (simp add: cast_vote_def InvalidCandidate_def DuplicateVoter_def Let_def)

lemma step_candidates: "candidates (step h cl s) = candidates s"
  by (cases cl) (simp_all add: cast_vote_cases create_block_eq)

lemma step_election_name: "election_name (step h cl s) = election_name s"
  by (cases cl) (simp_all add: cast_vote_cases create_block_eq)

lemma step_voted: "voted_voters s \<subseteq> voted_voters (step h cl s)"
  by (cases cl) (auto simp: cast_vote_cases create_block_eq)

lemma step_chain: "prefix (chain s) (chain (step h cl s))"
  by (cases cl) (simp_all add: cast_vote_cases create_block_eq)

lemma run_Nil: "run h [] s = s"
  by (simp add: run_def)

lemma run_Cons: "run h (cl # cls) s = run h cls (step h cl s)"
  by (simp add: run_def)

lemma run_append: "run h (cs1 @ cs2) s = run h cs2 (run h cs1 s)"
  by (simp add: run_def)

lemma run_candidates: "candidates (run h cls s) = candidates s"
  by (induction cls arbitrary: s) (simp_all add: run_Nil run_Cons step_candidates)

lemma run_election_name: "election_name (run h cls s) = election_name s"
  by (induction cls arbitrary: s) (simp_all add: run_Nil run_Cons step_election_name)

lemma run_voted: "voted_voters s \<subseteq> voted_voters (run h cls s)"
proof (induction cls arbitrary: s)
  case Nil
  show ?case by (simp add: run_Nil)
next
  case (Cons cl cls)
  have "voted_voters s \<subseteq> voted_voters (step h cl s)" by (rule step_voted)
  also have "\<dots> \<subseteq> voted_voters (run h cls (step h cl s))" by (rule Cons.IH)
  finally show ?case by (simp add: run_Cons)
qed

lemma run_chain: "prefix (chain s) (chain (run h cls s))"
proof (induction cls arbitrary: s)
  case Nil
  show ?case by (simp add: run_Nil)
next
  case (Cons cl cls)
  have "prefix (chain s) (chain (step h cl s))" by (rule step_chain)
  also have "prefix \<dots> (chain (run h cls (step h cl s)))" by (rule Cons.IH)
  finally show ?case by (simp add: run_Cons)
qed

subsection \<open>Double voting\<close>

lemma cast_vote_accepted:
  assumes "cast_vote h now v c s = (Inr vt, s1)"
  shows "c \<in> set (candidates s)" and "v \<notin> voted_voters s" and "v \<in> voted_voters s1"
    and "candidates s1 = candidates s"
  using assms by (auto simp: cast_vote_cases split: if_splits)

text \<open>
  C1, as the code has it: after \<open>cast_vote v c1\<close> was accepted, every later
  \<open>cast_vote v c2\<close>, whatever calls came in between, fails and leaves the state unchanged.
  The candidate is checked first: the error is \<open>DuplicateVoter\<close> when \<open>c2\<close> is a configured
  candidate and \<open>InvalidCandidate\<close> when it is not.
\<close>

theorem cast_vote_once:
  assumes "cast_vote h now v c1 s = (Inr vt, s1)"
  shows "cast_vote h now2 v c2 (run h calls s1) =
           (if c2 \<in> set (candidates s) then Inl DuplicateVoter
            else Inl (InvalidCandidate (candidates s)), run h calls s1)"
proof -
  from assms have "v \<in> voted_voters s1" and c: "candidates s1 = candidates s"
    by (rule cast_vote_accepted)+
  with run_voted [of s1 h calls] have "v \<in> voted_voters (run h calls s1)" by blast
  then show ?thesis by (simp add: cast_vote_cases run_candidates c)
qed

lemma demo_no_voters: "voted_voters demo_election = {}"
  by (simp add: demo_election_def init_def timedelta_days_def datetime_add_def create_block_eq)

lemma demo_first_vote:
  "\<not> isl (fst (cast_vote sample_digest 1 ''voter1@school.edu'' ''Alice'' demo_election))"
  by (simp add: cast_vote_cases demo_candidates demo_no_voters)

theorem cast_vote_once_witness:
  "cast_vote sample_digest 1 ''voter1@school.edu'' ''Alice'' demo_election
     = (Inr \<lparr>voter_id = hash_voter_id sample_digest ''voter1@school.edu'', candidate = ''Alice'',
            timestamp = 1\<rparr>,
        snd (cast_vote sample_digest 1 ''voter1@school.edu'' ''Alice'' demo_election))
   \<and> fst (cast_vote sample_digest 3 ''voter1@school.edu'' ''Bob''
       (run sample_digest [Cast_vote 2 ''voter2@school.edu'' ''Bob'', Create_block 2 35293 ''ab'']
         (snd (cast_vote sample_digest 1 ''voter1@school.edu'' ''Alice'' demo_election))))
     = Inl DuplicateVoter"
proof -
  have a: "cast_vote sample_digest 1 ''voter1@school.edu'' ''Alice'' demo_election
     = (Inr \<lparr>voter_id = hash_voter_id sample_digest ''voter1@school.edu'', candidate = ''Alice'',
            timestamp = 1\<rparr>,
        snd (cast_vote sample_digest 1 ''voter1@school.edu'' ''Alice'' demo_election))"
    by (simp add: cast_vote_cases demo_candidates demo_no_voters)
  from cast_vote_once [OF a, of 3 "''Bob''"
      "[Cast_vote 2 ''voter2@school.edu'' ''Bob'', Create_block 2 35293 ''ab'']"] a
  show ?thesis by (simp add: demo_candidates)
qed

text \<open>
  C1 as stated does not hold for every candidate of the second call: the same voter,
  voting again for a candidate that is not configured, gets the \<open>InvalidCandidate\<close> error
  and not \<open>DuplicateVoter\<close>.
\<close>

theorem cast_vote_twice_counterexample:
  "\<not> isl (fst (cast_vote sample_digest 1 ''voter1@school.edu'' ''Alice'' demo_election))
   \<and> fst (cast_vote sample_digest 2 ''voter1@school.edu'' ''Dave''
            (snd (cast_vote sample_digest 1 ''voter1@school.edu'' ''Alice'' demo_election)))
       = Inl (ValueError ''Invalid candidate. Choose from: ['Alice', 'Bob', 'Charlie']'')
   \<and> fst (cast_vote sample_digest 2 ''voter1@school.edu'' ''Dave''
            (snd (cast_vote sample_digest 1 ''voter1@school.edu'' ''Alice'' demo_election)))
       \<noteq> Inl DuplicateVoter"
proof -
  have m: "InvalidCandidate [''Alice'', ''Bob'', ''Charlie'']
           = ValueError ''Invalid candidate. Choose from: ['Alice', 'Bob', 'Charlie']''"
    by (simp add: InvalidCandidate_def repr_list_def repr_str_def repr_quote_def
          repr_char_def printable_def Let_def)
  have d: "ValueError ''Invalid candidate. Choose from: ['Alice', 'Bob', 'Charlie']'' \<noteq> DuplicateVoter"
    by (simp add: DuplicateVoter_def)
  show ?thesis
    using m d by (simp add: cast_vote_cases demo_candidates demo_no_voters)
qed

subsection \<open>The store under later calls\<close>

lemma step_below:
  assumes "a < pending_votes s" and "pending_votes s < fresh s"
  shows "store (step h cl s) a = store s a"
    and "a < pending_votes (step h cl s)"
    and "pending_votes (step h cl s) < fresh (step h cl s)"
  using assms by (cases cl; simp add: cast_vote_cases create_block_eq)+

lemma run_below:
  assumes "a < pending_votes s" and "pending_votes s < fresh s"
  shows "store (run h cls s) a = store s a \<and> a < pending_votes (run h cls s)
         \<and> pending_votes (run h cls s) < fresh (run h cls s)"
  using assms
proof (induction cls arbitrary: s)
  case Nil
  then show ?case by (simp add: run_Nil)
next
  case (Cons cl cls)
  from step_below [OF Cons.prems, of h cl] Cons.IH [of "step h cl s"]
  show ?case by (simp add: run_Cons)
qed

lemma step_allocated: "allocated s \<Longrightarrow> allocated (step h cl s)"
  by (cases cl) (simp_all add: allocated_def cast_vote_cases create_block_eq)

lemma run_allocated: "allocated s \<Longrightarrow> allocated (run h cls s)"
  by (induction cls arbitrary: s) (simp_all add: run_Nil run_Cons step_allocated)

lemma run_pending_log:
  "store (run h cls s) (pending_votes (run h cls s)) = pending_log h cls s (store s (pending_votes s))"
proof (induction cls arbitrary: s)
  case Nil
  show ?case by (simp add: run_Nil)
next
  case (Cons cl cls)
  show ?case
  proof (cases cl)
    case (Cast_vote now v c)
    then show ?thesis using Cons.IH [of "step h cl s"]
      by (simp add: run_Cons cast_vote_cases)
  next
    case (Create_block now p prev)
    then show ?thesis using Cons.IH [of "step h cl s"]
      by (simp add: run_Cons create_block_eq)
  qed
qed

text \<open>
  C3: \<open>create_block\<close> has no failing branch and checks neither \<open>proof\<close> nor
  \<open>previous_hash\<close>. In a state \<open>s\<close>, reached by any calls from a state whose pending list
  is an allocated object, the new block has index \<open>length (chain s) + 1\<close> and the supplied
  proof and previous hash; its vote list is a new object, distinct from the pending list
  before and after the call, holding the votes admitted since the last block in admission
  order; no later call changes it; the new pending list is empty; and the chain grows by
  exactly this block, which is returned.
\<close>

theorem create_block_snapshot:
  assumes "allocated s0" and "s = run h calls s0"
    and "create_block now p prev s = (b, s')"
  shows "index b = length (chain s) + 1
       \<and> block_proof b = p \<and> previous_hash b = prev
       \<and> block_timestamp b = now \<and> block_election_name b = election_name s
       \<and> store s' (votes b) = store s (pending_votes s)
       \<and> store s (pending_votes s) = pending_log h calls s0 (store s0 (pending_votes s0))
       \<and> votes b \<noteq> pending_votes s \<and> votes b \<noteq> pending_votes s'
       \<and> (\<forall>later. store (run h later s') (votes b) = store s (pending_votes s))
       \<and> store s' (pending_votes s') = []
       \<and> chain s' = chain s @ [b]"
proof -
  from assms(1,2) have al: "pending_votes s < fresh s"
    using run_allocated [of s0 h calls] by (simp add: allocated_def)
  from assms(3) have b: "b = fst (create_block now p prev s)"
    and s': "s' = snd (create_block now p prev s)" by simp_all
  have c1: "index b = length (chain s) + 1" by (simp add: b create_block_eq)
  have c2: "block_proof b = p" by (simp add: b create_block_eq)
  have c3: "previous_hash b = prev" by (simp add: b create_block_eq)
  have c4: "block_timestamp b = now" by (simp add: b create_block_eq)
  have c5: "block_election_name b = election_name s" by (simp add: b create_block_eq)
  have vb: "votes b = fresh s" by (simp add: b create_block_eq)
  have pv: "pending_votes s' = fresh s + 1" by (simp add: s' create_block_eq)
  have fr: "fresh s' = fresh s + 2" by (simp add: s' create_block_eq)
  have c6: "store s' (votes b) = store s (pending_votes s)" by (simp add: vb s' create_block_eq)
  have c7: "store s (pending_votes s) = pending_log h calls s0 (store s0 (pending_votes s0))"
    unfolding assms(2) by (rule run_pending_log)
  have c8: "votes b \<noteq> pending_votes s" using al vb by simp
  have c9: "votes b \<noteq> pending_votes s'" using vb pv by simp
  have c10: "store (run h later s') (votes b) = store s (pending_votes s)" for later
  proof -
    have "votes b < pending_votes s'" and "pending_votes s' < fresh s'" using vb pv fr by simp_all
    from run_below [OF this, of h later] c6 show ?thesis by simp
  qed
  have c11: "store s' (pending_votes s') = []" by (simp add: s' create_block_eq)
  have c12: "chain s' = chain s @ [b]" by (simp add: b s' create_block_eq)
  from c1 c2 c3 c4 c5 c6 c7 c8 c9 c10 c11 c12 show ?thesis by blast
qed

lemma demo_election_eq:
  "demo_election =
     \<lparr>chain = [\<lparr>index = 1, block_timestamp = 0, votes = 1, block_proof = 100,
                previous_hash = ''0'', block_election_name = ''Student Council Election''\<rparr>],
      pending_votes = 2, candidates = [''Alice'', ''Bob'', ''Charlie''],
      election_name = ''Student Council Election'', election_start = 0,
      election_end = 604800000000, voted_voters = {},
      store = (\<lambda>a. [])(Suc 0 := [], Suc (Suc 0) := []), fresh = 3\<rparr>"
  by (simp add: demo_election_def init_def timedelta_days_def datetime_add_def create_block_eq)

lemma demo_allocated: "allocated demo_election"
  by (simp add: allocated_def demo_election_eq)

lemma sample_invalid_35293: "\<not> valid_proof sample_digest 100 35293"
  by (simp add: valid_proof_def sample_digest_def str_int_def str_nat.simps
        digit_char_def encode_def encode_char_def)

theorem create_block_snapshot_witness:
  "allocated demo_election
   \<and> \<not> valid_proof sample_digest 100 35293
   \<and> block_proof (fst (create_block 4 35293 ''abc''
        (run sample_digest
           [Cast_vote 1 ''voter1'' ''Alice'', Cast_vote 2 ''voter1'' ''Bob'',
            Cast_vote 3 ''voter2'' ''Bob''] demo_election))) = 35293
   \<and> index (fst (create_block 4 35293 ''abc''
        (run sample_digest
           [Cast_vote 1 ''voter1'' ''Alice'', Cast_vote 2 ''voter1'' ''Bob'',
            Cast_vote 3 ''voter2'' ''Bob''] demo_election))) = 2
   \<and> store
       (run sample_digest [Cast_vote 5 ''voter3'' ''Charlie'']
         (snd (create_block 4 35293 ''abc''
           (run sample_digest
              [Cast_vote 1 ''voter1'' ''Alice'', Cast_vote 2 ''voter1'' ''Bob'',
               Cast_vote 3 ''voter2'' ''Bob''] demo_election))))
       (votes (fst (create_block 4 35293 ''abc''
         (run sample_digest
            [Cast_vote 1 ''voter1'' ''Alice'', Cast_vote 2 ''voter1'' ''Bob'',
             Cast_vote 3 ''voter2'' ''Bob''] demo_election))))
     = [\<lparr>voter_id = hash_voter_id sample_digest ''voter1'', candidate = ''Alice'', timestamp = 1\<rparr>,
        \<lparr>voter_id = hash_voter_id sample_digest ''voter2'', candidate = ''Bob'', timestamp = 3\<rparr>]"
proof -
  let ?calls = "[Cast_vote 1 ''voter1'' ''Alice'', Cast_vote 2 ''voter1'' ''Bob'',
                 Cast_vote 3 ''voter2'' ''Bob'']"
  let ?s = "run sample_digest ?calls demo_election"
  have log: "pending_log sample_digest ?calls demo_election (store demo_election (pending_votes demo_election))
     = [\<lparr>voter_id = hash_voter_id sample_digest ''voter1'', candidate = ''Alice'', timestamp = 1\<rparr>,
        \<lparr>voter_id = hash_voter_id sample_digest ''voter2'', candidate = ''Bob'', timestamp = 3\<rparr>]"
    by (simp add: demo_election_eq cast_vote_cases)
  have len: "length (chain ?s) = 1"
    by (simp add: run_def demo_election_eq cast_vote_cases)
  from create_block_snapshot [where h = sample_digest and calls = ?calls and now = 4
      and p = 35293 and prev = "''abc''", OF demo_allocated refl surjective_pairing]
  show ?thesis using log len demo_allocated sample_invalid_35293 by simp
qed

subsection \<open>Initialisation and the chain\<close>

lemma init_Inr:
  assumes "init t1 t2 t3 name cands days = Inr s0"
  shows "\<exists>e. s0 =
     \<lparr>chain = [\<lparr>index = 1, block_timestamp = t3, votes = 1, block_proof = 100,
                previous_hash = ''0'', block_election_name = name\<rparr>],
      pending_votes = 2, candidates = cands, election_name = name, election_start = t1,
      election_end = e, voted_voters = {},
      store = (\<lambda>a. [])(Suc 0 := [], Suc (Suc 0) := []), fresh = 3\<rparr>"
  using assms by (auto simp: init_def create_block_eq split: sum.splits)

lemma init_allocated: "init t1 t2 t3 name cands days = Inr s0 \<Longrightarrow> allocated s0"
  by (drule init_Inr) (auto simp: allocated_def)

lemma init_succeeds:
  assumes "\<bar>days\<bar> \<le> 999999999" and "0 \<le> t2 + days * 86400000000"
    and "t2 + days * 86400000000 < 3652059 * 86400000000"
  shows "\<exists>s0. init t1 t2 t3 name cands days = Inr s0"
proof -
  from assms(1) have "\<not> (days < - 2147483648 \<or> 2147483647 < days)" by arith
  with assms show ?thesis by (simp add: init_def timedelta_days_def datetime_add_def)
qed

lemma init_separated: "init t1 t2 t3 name cands days = Inr s0 \<Longrightarrow> separated s0"
  by (drule init_Inr) (auto simp: separated_def)

lemma step_separated: "separated s \<Longrightarrow> separated (step h cl s)"
proof (cases cl)
  case (Cast_vote now v c)
  assume "separated s"
  with Cast_vote show ?thesis by (simp add: separated_def cast_vote_cases)
next
  case (Create_block now p prev)
  assume sep: "separated s"
  then have "list_all (\<lambda>b. votes b < Suc (fresh s)) (chain s)"
    by (auto simp: separated_def list_all_iff)
  with sep Create_block show ?thesis by (simp add: separated_def create_block_eq)
qed

lemma run_separated: "separated s \<Longrightarrow> separated (run h cls s)"
  by (induction cls arbitrary: s) (simp_all add: run_Nil run_Cons step_separated)

lemma committed_stable:
  assumes "separated s" and "b \<in> set (chain s)"
  shows "store (run h cls s) (votes b) = store s (votes b)"
proof -
  from assms have "votes b < pending_votes s" and "pending_votes s < fresh s"
    by (auto simp: separated_def list_all_iff)
  from run_below [OF this] show ?thesis by simp
qed

text \<open>
  C8: a successful initialisation leaves a chain of exactly one block, the genesis block
  of index 1, proof 100 and previous hash \<open>''0''\<close>, with no vote committed, pending or
  registered. From then on the chain is never empty and only grows at its end: every call
  keeps the earlier chain as a prefix and the vote lists of its blocks as they are,
  \<open>create_block\<close> adds exactly one block, and \<open>cast_vote\<close> adds none.
\<close>

theorem chain_nonempty_append_only:
  assumes "init t1 t2 t3 name cands days = Inr s0"
  shows "(\<exists>g. chain s0 = [g] \<and> index g = 1 \<and> block_proof g = 100 \<and> previous_hash g = ''0''
              \<and> store s0 (votes g) = []
              \<and> (\<forall>calls. \<exists>rest. chain (run h calls s0) = g # rest))
       \<and> store s0 (pending_votes s0) = [] \<and> voted_voters s0 = {}
       \<and> (\<forall>calls more. prefix (chain (run h calls s0)) (chain (run h (calls @ more) s0)))
       \<and> (\<forall>calls more. \<forall>b \<in> set (chain (run h calls s0)).
             store (run h (calls @ more) s0) (votes b) = store (run h calls s0) (votes b))
       \<and> (\<forall>s now p prev. length (chain (snd (create_block now p prev s))) = length (chain s) + 1)
       \<and> (\<forall>s now v c. chain (snd (cast_vote h now v c s)) = chain s)"
proof -
  from init_Inr [OF assms] obtain e where s0: "s0 =
     \<lparr>chain = [\<lparr>index = 1, block_timestamp = t3, votes = 1, block_proof = 100,
                previous_hash = ''0'', block_election_name = name\<rparr>],
      pending_votes = 2, candidates = cands, election_name = name, election_start = t1,
      election_end = e, voted_voters = {},
      store = (\<lambda>a. [])(Suc 0 := [], Suc (Suc 0) := []), fresh = 3\<rparr>" by blast
  define g where "g = \<lparr>index = 1, block_timestamp = t3, votes = 1, block_proof = 100,
                previous_hash = ''0'', block_election_name = name\<rparr>"
  have g: "chain s0 = [g]" "index g = 1" "block_proof g = 100" "previous_hash g = ''0''"
    "store s0 (votes g) = []"
    by (simp_all add: s0 g_def)
  have rest: "\<exists>rest. chain (run h calls s0) = g # rest" for calls
  proof -
    have "prefix [g] (chain (run h calls s0))" using run_chain [of s0 h calls] g(1) by simp
    then show ?thesis by (auto simp: prefix_def)
  qed
  have p1: "store s0 (pending_votes s0) = []" and p2: "voted_voters s0 = {}"
    by (simp_all add: s0)
  have p3: "prefix (chain (run h calls s0)) (chain (run h (calls @ more) s0))" for calls more
    by (simp add: run_append run_chain)
  have p4: "\<forall>b \<in> set (chain (run h calls s0)).
             store (run h (calls @ more) s0) (votes b) = store (run h calls s0) (votes b)"
    for calls more
  proof
    fix b assume b: "b \<in> set (chain (run h calls s0))"
    have "separated (run h calls s0)" by (rule run_separated) (rule init_separated [OF assms])
    from committed_stable [OF this b] show
      "store (run h (calls @ more) s0) (votes b) = store (run h calls s0) (votes b)"
      by (simp add: run_append)
  qed
  have p5: "length (chain (snd (create_block now p prev s))) = length (chain s) + 1"
    for s now p prev by (simp add: create_block_eq)
  have p6: "chain (snd (cast_vote h now v c s)) = chain s" for s now v c
    by (simp add: cast_vote_cases)
  from g rest p1 p2 p3 p4 p5 p6 show ?thesis by blast
qed

theorem chain_nonempty_append_only_witness:
  "init 0 0 0 ''Student Council Election'' [''Alice'', ''Bob'', ''Charlie''] 7 = Inr demo_election
   \<and> length (chain demo_election) = 1
   \<and> length (chain (run sample_digest
        [Cast_vote 1 ''voter1'' ''Alice'', Create_block 2 35293 ''abc''] demo_election)) = 2
   \<and> prefix (chain demo_election)
        (chain (run sample_digest
           [Cast_vote 1 ''voter1'' ''Alice'', Create_block 2 35293 ''abc''] demo_election))"
proof -
  from chain_nonempty_append_only [OF demo_init, of sample_digest]
  have "\<forall>calls more. prefix (chain (run sample_digest calls demo_election))
          (chain (run sample_digest (calls @ more) demo_election))" by blast
  from this [rule_format, of "[]" "[Cast_vote 1 ''voter1'' ''Alice'', Create_block 2 35293 ''abc'']"]
  have pre: "prefix (chain demo_election)
        (chain (run sample_digest
           [Cast_vote 1 ''voter1'' ''Alice'', Create_block 2 35293 ''abc''] demo_election))"
    by (simp add: run_Nil)
  have l1: "length (chain demo_election) = 1" by (simp add: demo_election_eq)
  have l2: "length (chain (run sample_digest
        [Cast_vote 1 ''voter1'' ''Alice'', Create_block 2 35293 ''abc''] demo_election)) = 2"
    by (simp add: run_def demo_election_eq cast_vote_cases create_block_eq)
  from demo_init pre l1 l2 show ?thesis by simp
qed

subsection \<open>The dict\<close>

lemma dict_get_map_of: "dict_get d k = map_of d k"
  by (induction d) auto

lemma dict_get_None: "(dict_get d k = None) = (k \<notin> fst ` set d)"
  by (simp add: dict_get_map_of map_of_eq_None_iff)

lemma keys_dict_set:
  "map fst (dict_set d k v) = (if k \<in> fst ` set d then map fst d else map fst d @ [k])"
  by (induction d) (force split: if_splits)+

lemma dict_get_dict_set:
  "dict_get (dict_set d k v) k' = (if k' = k then Some v else dict_get d k')"
  by (induction d) auto

lemma sum_dict_set:
  fixes d :: "('k \<times> nat) list"
  shows "dict_get d k = Some n \<Longrightarrow> sum_list (map snd (dict_set d k (n + 1))) = sum_list (map snd d) + 1"
  by (induction d) (auto split: if_splits)

lemma dict_get_distinct:
  "distinct (map fst d) \<Longrightarrow> (k, v) \<in> set d \<Longrightarrow> dict_get d k = Some v"
  by (simp add: dict_get_map_of)

lemma dict_get_mem: "dict_get d k = Some v \<Longrightarrow> (k, v) \<in> set d"
  by (simp add: dict_get_map_of map_of_SomeD)

subsection \<open>The zeroed counters\<close>

lemma zero_counts_snoc: "zero_counts (cs @ [c]) = dict_set (zero_counts cs) c 0"
  by (simp add: zero_counts_def)

lemma zero_counts_Nil: "zero_counts [] = []"
  by (simp add: zero_counts_def)

lemma zero_counts_props:
  "map fst (zero_counts cs) = rev (remdups (rev cs)) \<and> (\<forall>p \<in> set (zero_counts cs). snd p = 0)"
proof (induction cs rule: rev_induct)
  case Nil
  show ?case by (simp add: zero_counts_Nil)
next
  case (snoc c cs)
  then have keys: "map fst (zero_counts cs) = rev (remdups (rev cs))"
    and zero: "\<forall>p \<in> set (zero_counts cs). snd p = 0" by simp_all
  from keys have fst_set: "fst ` set (zero_counts cs) = set cs"
    by (metis list.set_map set_remdups set_rev)
  have k: "map fst (zero_counts (cs @ [c])) = rev (remdups (rev (cs @ [c])))"
    by (simp add: zero_counts_snoc keys_dict_set fst_set keys)
  have "set (dict_set d c (0::nat)) \<subseteq> insert (c, 0) (set d)" for d :: "(string \<times> nat) list"
    by (induction d) (auto split: if_splits)
  then have "\<forall>p \<in> set (zero_counts (cs @ [c])). snd p = 0"
    using zero by (fastforce simp: zero_counts_snoc)
  with k show ?case by simp
qed

lemma zero_counts_keys: "map fst (zero_counts cs) = rev (remdups (rev cs))"
  using zero_counts_props by blast

lemma zero_counts_key_set: "fst ` set (zero_counts cs) = set cs"
  using zero_counts_keys [of cs] by (metis list.set_map set_remdups set_rev)

lemma zero_counts_distinct: "distinct (map fst (zero_counts cs))"
  by (simp add: zero_counts_keys)

lemma zero_counts_get: "c \<in> set cs \<Longrightarrow> dict_get (zero_counts cs) c = Some 0"
proof -
  assume "c \<in> set cs"
  then have "c \<in> fst ` set (zero_counts cs)" by (simp add: zero_counts_key_set)
  then obtain n where "dict_get (zero_counts cs) c = Some n"
    using dict_get_None [of "zero_counts cs" c] by (cases "dict_get (zero_counts cs) c") auto
  moreover from this have "(c, n) \<in> set (zero_counts cs)" by (rule dict_get_mem)
  then have "n = 0" using zero_counts_props [of cs] by fastforce
  ultimately show ?thesis by simp
qed

lemma zero_counts_sum: "sum_list (map snd (zero_counts cs)) = 0"
  using zero_counts_props [of cs] by (simp add: sum_list_eq_0_iff)

subsection \<open>Counting\<close>

lemma increment_Inl: "k \<notin> fst ` set d \<Longrightarrow> increment d k = Inl (KeyError k)"
  using dict_get_None [of d k] by (simp add: increment_def)

lemma increment_Inr:
  assumes "increment d k = Inr d'"
  shows "k \<in> fst ` set d" and "map fst d' = map fst d"
    and "dict_get d' k' = (if k' = k then map_option Suc (dict_get d k) else dict_get d k')"
    and "sum_list (map snd d') = sum_list (map snd d) + 1"
proof -
  from assms obtain n where n: "dict_get d k = Some n" and d': "d' = dict_set d k (n + 1)"
    by (auto simp: increment_def split: option.splits)
  from n show k: "k \<in> fst ` set d" using dict_get_None [of d k] by auto
  from k show "map fst d' = map fst d" by (simp add: d' keys_dict_set)
  show "dict_get d' k' = (if k' = k then map_option Suc (dict_get d k) else dict_get d k')"
    by (simp add: d' n dict_get_dict_set)
  from n show "sum_list (map snd d') = sum_list (map snd d) + 1"
    unfolding d' by (rule sum_dict_set)
qed

lemma increment_ok: "k \<in> fst ` set d \<Longrightarrow> \<exists>d'. increment d k = Inr d'"
  using dict_get_None [of d k] by (cases "dict_get d k") (auto simp: increment_def)

lemma count_votes_Inr:
  assumes "count_votes vs d = Inr d'"
  shows "map fst d' = map fst d \<and> candidate ` set vs \<subseteq> fst ` set d
       \<and> (\<forall>k n. dict_get d k = Some n \<longrightarrow>
              dict_get d' k = Some (n + length (filter (\<lambda>v. candidate v = k) vs)))
       \<and> sum_list (map snd d') = sum_list (map snd d) + length vs"
  using assms
proof (induction vs arbitrary: d)
  case Nil
  then show ?case by simp
next
  case (Cons v vs)
  from Cons.prems obtain d1 where inc: "increment d (candidate v) = Inr d1"
    and rest: "count_votes vs d1 = Inr d'"
    by (auto split: sum.splits)
  note i = increment_Inr [OF inc]
  note r = Cons.IH [OF rest]
  have keys: "map fst d' = map fst d" using r i(2) by simp
  have fst_eq: "fst ` set d1 = fst ` set d" using i(2) by (metis list.set_map)
  have sub: "candidate ` set (v # vs) \<subseteq> fst ` set d" using r i(1) fst_eq by auto
  have get: "dict_get d' k = Some (n + length (filter (\<lambda>v. candidate v = k) (v # vs)))"
    if "dict_get d k = Some n" for k n
  proof (cases "k = candidate v")
    case True
    with that have "dict_get d1 k = Some (Suc n)" by (simp add: i(3))
    with r have "dict_get d' k = Some (Suc n + length (filter (\<lambda>v. candidate v = k) vs))" by blast
    with True show ?thesis by simp
  next
    case False
    with that have "dict_get d1 k = Some n" by (simp add: i(3))
    with r have "dict_get d' k = Some (n + length (filter (\<lambda>v. candidate v = k) vs))" by blast
    with False show ?thesis by auto
  qed
  have sum: "sum_list (map snd d') = sum_list (map snd d) + length (v # vs)"
    using r i(4) by simp
  from keys sub get sum show ?case by blast
qed

lemma count_votes_ok:
  "candidate ` set vs \<subseteq> fst ` set d \<Longrightarrow> \<exists>d'. count_votes vs d = Inr d'"
proof (induction vs arbitrary: d)
  case Nil
  show ?case by simp
next
  case (Cons v vs)
  then have "candidate v \<in> fst ` set d" by simp
  then obtain d1 where inc: "increment d (candidate v) = Inr d1" using increment_ok by blast
  then have "fst ` set d1 = fst ` set d" using increment_Inr(2) [OF inc] by (metis list.set_map)
  with Cons.prems have "candidate ` set vs \<subseteq> fst ` set d1" by simp
  from Cons.IH [OF this] inc show ?case by simp
qed

lemma count_votes_append:
  "count_votes (xs @ ys) d = (case count_votes xs d of Inl e \<Rightarrow> Inl e | Inr d' \<Rightarrow> count_votes ys d')"
  by (induction xs arbitrary: d) (auto split: sum.splits)

lemma count_blocks_eq:
  "count_blocks st bs d = count_votes (concat (map (\<lambda>b. st (votes b)) bs)) d"
  by (induction bs arbitrary: d) (auto simp: count_votes_append split: sum.splits)

lemma count_blocks_committed:
  "count_blocks (store s) (chain s) d = count_votes (committed_votes s) d"
  by (simp add: count_blocks_eq committed_votes_def)

subsection \<open>The maximum\<close>

lemma max_loop_first:
  assumes "\<forall>(k, v) \<in> set ps. dict_get d k = Some v"
  shows "\<exists>w. max_loop d best bv (map fst ps) = Inr w
           \<and> ((w = best \<and> (\<forall>(k, v) \<in> set ps. v \<le> bv))
              \<or> (\<exists>pre n post. ps = pre @ (w, n) # post \<and> bv < n
                    \<and> (\<forall>(k, v) \<in> set pre. v < n) \<and> (\<forall>(k, v) \<in> set post. v \<le> n)))"
  using assms
proof (induction ps arbitrary: best bv)
  case Nil
  show ?case by simp
next
  case (Cons p ps)
  obtain k v where p: "p = (k, v)" by (cases p)
  from Cons.prems p have kv: "dict_get d k = Some v"
    and rest: "\<forall>(k, v) \<in> set ps. dict_get d k = Some v" by simp_all
  show ?case
  proof (cases "bv < v")
    case True
    then have eq: "max_loop d best bv (map fst (p # ps)) = max_loop d k v (map fst ps)"
      by (simp add: p kv)
    from Cons.IH [OF rest, of k v] obtain w where w: "max_loop d k v (map fst ps) = Inr w"
      and alt: "(w = k \<and> (\<forall>(k, v') \<in> set ps. v' \<le> v))
              \<or> (\<exists>pre n post. ps = pre @ (w, n) # post \<and> v < n
                    \<and> (\<forall>(k, v) \<in> set pre. v < n) \<and> (\<forall>(k, v) \<in> set post. v \<le> n))"
      by blast
    from alt have "\<exists>pre n post. p # ps = pre @ (w, n) # post \<and> bv < n
                    \<and> (\<forall>(k, v) \<in> set pre. v < n) \<and> (\<forall>(k, v) \<in> set post. v \<le> n)"
    proof
      assume a: "w = k \<and> (\<forall>(k, v') \<in> set ps. v' \<le> v)"
      then have "p # ps = [] @ (w, v) # ps" using p by simp
      with a True show ?thesis by (metis empty_iff list.set(1))
    next
      assume "\<exists>pre n post. ps = pre @ (w, n) # post \<and> v < n
             \<and> (\<forall>(k, v) \<in> set pre. v < n) \<and> (\<forall>(k, v) \<in> set post. v \<le> n)"
      then obtain pre n post where b: "ps = pre @ (w, n) # post"
        "v < n" "\<forall>(k, v) \<in> set pre. v < n" "\<forall>(k, v) \<in> set post. v \<le> n" by blast
      have 1: "p # ps = (p # pre) @ (w, n) # post" using b(1) by simp
      have 2: "bv < n" using True b(2) by simp
      have 3: "\<forall>(k, v) \<in> set (p # pre). v < n" using b(2,3) p by simp
      from 1 2 3 b(4) show ?thesis by blast
    qed
    with w eq show ?thesis by simp
  next
    case False
    then have eq: "max_loop d best bv (map fst (p # ps)) = max_loop d best bv (map fst ps)"
      by (simp add: p kv)
    from Cons.IH [OF rest, of best bv] obtain w where w: "max_loop d best bv (map fst ps) = Inr w"
      and alt: "(w = best \<and> (\<forall>(k, v) \<in> set ps. v \<le> bv))
              \<or> (\<exists>pre n post. ps = pre @ (w, n) # post \<and> bv < n
                    \<and> (\<forall>(k, v) \<in> set pre. v < n) \<and> (\<forall>(k, v) \<in> set post. v \<le> n))"
      by blast
    from alt have "(w = best \<and> (\<forall>(k, v) \<in> set (p # ps). v \<le> bv))
              \<or> (\<exists>pre n post. p # ps = pre @ (w, n) # post \<and> bv < n
                    \<and> (\<forall>(k, v) \<in> set pre. v < n) \<and> (\<forall>(k, v) \<in> set post. v \<le> n))"
    proof
      assume "w = best \<and> (\<forall>(k, v) \<in> set ps. v \<le> bv)"
      with False p show ?thesis by simp
    next
      assume "\<exists>pre n post. ps = pre @ (w, n) # post \<and> bv < n
             \<and> (\<forall>(k, v) \<in> set pre. v < n) \<and> (\<forall>(k, v) \<in> set post. v \<le> n)"
      then obtain pre n post where b: "ps = pre @ (w, n) # post"
        "bv < n" "\<forall>(k, v) \<in> set pre. v < n" "\<forall>(k, v) \<in> set post. v \<le> n" by blast
      have 1: "p # ps = (p # pre) @ (w, n) # post" using b(1) by simp
      have 3: "\<forall>(k, v) \<in> set (p # pre). v < n" using b(2,3) p False by simp
      from 1 b(2) 3 b(4) show ?thesis by blast
    qed
    with w eq show ?thesis by simp
  qed
qed

lemma max_key_first:
  assumes "distinct (map fst d)" and "max_key d = Inr w"
  shows "\<exists>pre n post. d = pre @ (w, n) # post
           \<and> (\<forall>(k, v) \<in> set pre. v < n) \<and> (\<forall>(k, v) \<in> set post. v \<le> n)"
proof (cases d)
  case Nil
  with assms(2) show ?thesis by (simp add: max_key_def)
next
  case (Cons p rest)
  obtain k0 n0 where p: "p = (k0, n0)" by (cases p)
  from assms(2) Cons p have w: "max_loop d k0 n0 (map fst rest) = Inr w" by (simp add: max_key_def)
  have "\<forall>(k, v) \<in> set rest. dict_get d k = Some v"
    using dict_get_distinct [OF assms(1)] Cons by auto
  from max_loop_first [OF this, of k0 n0] w
  have "(w = k0 \<and> (\<forall>(k, v) \<in> set rest. v \<le> n0))
      \<or> (\<exists>pre n post. rest = pre @ (w, n) # post \<and> n0 < n
            \<and> (\<forall>(k, v) \<in> set pre. v < n) \<and> (\<forall>(k, v) \<in> set post. v \<le> n))"
    by simp
  then show ?thesis
  proof
    assume "w = k0 \<and> (\<forall>(k, v) \<in> set rest. v \<le> n0)"
    with Cons p have "d = [] @ (w, n0) # rest" and "\<forall>(k, v) \<in> set rest. v \<le> n0" by simp_all
    then show ?thesis by (metis empty_iff list.set(1))
  next
    assume "\<exists>pre n post. rest = pre @ (w, n) # post \<and> n0 < n
             \<and> (\<forall>(k, v) \<in> set pre. v < n) \<and> (\<forall>(k, v) \<in> set post. v \<le> n)"
    then obtain pre n post where b: "rest = pre @ (w, n) # post" "n0 < n"
      "\<forall>(k, v) \<in> set pre. v < n" "\<forall>(k, v) \<in> set post. v \<le> n" by blast
    have 1: "d = (p # pre) @ (w, n) # post" using Cons b(1) by simp
    have 2: "\<forall>(k, v) \<in> set (p # pre). v < n" using b(2,3) p by simp
    from 1 2 b(4) show ?thesis by blast
  qed
qed

lemma max_loop_ok: "set ks \<subseteq> fst ` set d \<Longrightarrow> \<exists>w. max_loop d best bv ks = Inr w"
proof (induction ks arbitrary: best bv)
  case Nil
  show ?case by simp
next
  case (Cons k ks)
  then have "k \<in> fst ` set d" and ks: "set ks \<subseteq> fst ` set d" by simp_all
  then obtain n where n: "dict_get d k = Some n"
    using dict_get_None [of d k] by (cases "dict_get d k") auto
  show ?case
  proof (cases "bv < n")
    case True
    with n Cons.IH [OF ks, of k n] show ?thesis by simp
  next
    case False
    with n Cons.IH [OF ks, of best bv] show ?thesis by simp
  qed
qed

lemma max_key_ok: "d \<noteq> [] \<Longrightarrow> \<exists>w. max_key d = Inr w"
proof (cases d)
  case Nil
  assume "d \<noteq> []"
  with Nil show ?thesis by simp
next
  case (Cons p rest)
  obtain k n where p: "p = (k, n)" by (cases p)
  have "set (map fst rest) \<subseteq> fst ` set d" using Cons by auto
  from max_loop_ok [OF this, of k n] Cons p show ?thesis by (simp add: max_key_def)
qed

subsection \<open>Votes of configured candidates only\<close>

lemma consistent_iff:
  "consistent s =
     (pending_votes s < fresh s
      \<and> (\<forall>b \<in> set (chain s). votes b < pending_votes s)
      \<and> (\<forall>v \<in> set (store s (pending_votes s)). candidate v \<in> set (candidates s))
      \<and> (\<forall>b \<in> set (chain s). \<forall>v \<in> set (store s (votes b)). candidate v \<in> set (candidates s)))"
  by (simp add: consistent_def separated_def list_all_iff)

lemma init_consistent: "init t1 t2 t3 name cands days = Inr s0 \<Longrightarrow> consistent s0"
  by (drule init_Inr) (auto simp: consistent_iff)

lemma cast_vote_consistent:
  assumes "consistent s"
  shows "consistent (snd (cast_vote h now v c s))"
proof (cases "c \<in> set (candidates s) \<and> v \<notin> voted_voters s")
  case False
  with assms show ?thesis by (auto simp: cast_vote_cases)
next
  case True
  let ?vt = "\<lparr>voter_id = hash_voter_id h v, candidate = c, timestamp = now\<rparr>"
  let ?s' = "snd (cast_vote h now v c s)"
  from True have f: "pending_votes ?s' = pending_votes s" "fresh ?s' = fresh s"
    "chain ?s' = chain s" "candidates ?s' = candidates s"
    "store ?s' = (store s)(pending_votes s := store s (pending_votes s) @ [?vt])"
    by (simp_all add: cast_vote_cases)
  from assms have c: "pending_votes s < fresh s"
    "\<forall>b \<in> set (chain s). votes b < pending_votes s"
    "\<forall>v \<in> set (store s (pending_votes s)). candidate v \<in> set (candidates s)"
    "\<forall>b \<in> set (chain s). \<forall>v \<in> set (store s (votes b)). candidate v \<in> set (candidates s)"
    by (simp_all add: consistent_iff)
  have 1: "\<forall>v \<in> set (store ?s' (pending_votes ?s')). candidate v \<in> set (candidates ?s')"
    using c(3) True by (simp add: f)
  have 2: "\<forall>b \<in> set (chain ?s'). \<forall>v \<in> set (store ?s' (votes b)). candidate v \<in> set (candidates ?s')"
  proof
    fix b assume b: "b \<in> set (chain ?s')"
    then have "votes b \<noteq> pending_votes s" using c(2) f(3) by auto
    then have "store ?s' (votes b) = store s (votes b)" by (simp add: f)
    with b c(4) f show "\<forall>v \<in> set (store ?s' (votes b)). candidate v \<in> set (candidates ?s')"
      by simp
  qed
  from c(1,2) 1 2 show ?thesis unfolding consistent_iff by (simp add: f(1,2,3))
qed

lemma create_block_consistent:
  assumes "consistent s"
  shows "consistent (snd (create_block now p prev s))"
proof -
  let ?s' = "snd (create_block now p prev s)"
  let ?b = "fst (create_block now p prev s)"
  have f: "pending_votes ?s' = fresh s + 1" "fresh ?s' = fresh s + 2"
    "chain ?s' = chain s @ [?b]" "candidates ?s' = candidates s" "votes ?b = fresh s"
    "store ?s' = (store s)(fresh s := store s (pending_votes s), fresh s + 1 := [])"
    by (simp_all add: create_block_eq)
  from assms have c: "pending_votes s < fresh s"
    "\<forall>b \<in> set (chain s). votes b < pending_votes s"
    "\<forall>v \<in> set (store s (pending_votes s)). candidate v \<in> set (candidates s)"
    "\<forall>b \<in> set (chain s). \<forall>v \<in> set (store s (votes b)). candidate v \<in> set (candidates s)"
    by (simp_all add: consistent_iff)
  have 0: "\<forall>b \<in> set (chain ?s'). votes b < pending_votes ?s'"
  proof
    fix b assume "b \<in> set (chain ?s')"
    then have "b \<in> set (chain s) \<or> b = ?b" by (simp add: f(3)) blast
    then show "votes b < pending_votes ?s'"
    proof
      assume "b \<in> set (chain s)"
      with c(1,2) have "votes b < fresh s" by fastforce
      then show ?thesis by (simp add: f(1))
    next
      assume "b = ?b"
      then show ?thesis by (simp add: f(1,5))
    qed
  qed
  have 1: "\<forall>v \<in> set (store ?s' (pending_votes ?s')). candidate v \<in> set (candidates ?s')"
    by (simp add: f(1,6))
  have 2: "\<forall>b \<in> set (chain ?s'). \<forall>v \<in> set (store ?s' (votes b)). candidate v \<in> set (candidates ?s')"
  proof
    fix b assume "b \<in> set (chain ?s')"
    then have "b \<in> set (chain s) \<or> b = ?b" by (simp add: f(3)) blast
    then show "\<forall>v \<in> set (store ?s' (votes b)). candidate v \<in> set (candidates ?s')"
    proof
      assume b: "b \<in> set (chain s)"
      with c(1,2) have "votes b < fresh s" by fastforce
      then have "store ?s' (votes b) = store s (votes b)" by (simp add: f(6))
      with b c(4) show ?thesis by (simp add: f(4))
    next
      assume "b = ?b"
      then have "store ?s' (votes b) = store s (pending_votes s)" by (simp add: f(5,6))
      with c(3) show ?thesis by (simp add: f(4))
    qed
  qed
  have "pending_votes ?s' < fresh ?s'" by (simp add: f(1,2))
  with 0 1 2 show ?thesis unfolding consistent_iff by blast
qed

lemma step_consistent: "consistent s \<Longrightarrow> consistent (step h cl s)"
  by (cases cl) (simp_all add: cast_vote_consistent create_block_consistent)

lemma run_consistent: "consistent s \<Longrightarrow> consistent (run h cls s)"
  by (induction cls arbitrary: s) (simp_all add: run_Nil run_Cons step_consistent)

lemma consistent_committed:
  "consistent s \<Longrightarrow> candidate ` set (committed_votes s) \<subseteq> set (candidates s)"
  by (auto simp: consistent_iff committed_votes_def)

subsection \<open>The tally\<close>

lemma results_Inr:
  assumes "fst (get_election_results fc s) = Inr r"
  shows "count_votes (committed_votes s) (zero_counts (candidates s)) = Inr (results r)"
    and "max_key (results r) = Inr (winner r)"
    and "total_votes r = sum_list (map snd (results r))"
    and "result_election_name r = election_name s"
  using assms
  by (auto simp: get_election_results_def count_blocks_committed split: sum.splits)

lemma results_counts:
  assumes "fst (get_election_results fc s) = Inr r"
  shows "map fst (results r) = rev (remdups (rev (candidates s)))"
    and "c \<in> set (candidates s) \<Longrightarrow> dict_get (results r) c = Some (votes_for s c)"
    and "results r = map (\<lambda>c. (c, votes_for s c)) (rev (remdups (rev (candidates s))))"
    and "sum_list (map snd (results r)) = length (committed_votes s)"
proof -
  note cv = count_votes_Inr [OF results_Inr(1) [OF assms]]
  from cv show keys: "map fst (results r) = rev (remdups (rev (candidates s)))"
    by (simp add: zero_counts_keys)
  show get: "dict_get (results r) c = Some (votes_for s c)" if "c \<in> set (candidates s)" for c
    using cv zero_counts_get [OF that] by (simp add: votes_for_def)
  have "p = (fst p, votes_for s (fst p))" if "p \<in> set (results r)" for p
  proof -
    obtain k v where p: "p = (k, v)" by (cases p)
    with that have "k \<in> set (map fst (results r))" by force
    then have "k \<in> set (candidates s)" by (simp add: keys)
    then have "dict_get (results r) k = Some (votes_for s k)" by (rule get)
    moreover have "distinct (map fst (results r))" by (simp add: keys)
    then have "dict_get (results r) k = Some v" using that p by (simp add: dict_get_distinct)
    ultimately show ?thesis using p by simp
  qed
  then have "map (\<lambda>p. (fst p, votes_for s (fst p))) (results r) = results r"
    by (simp add: map_idI)
  then have "results r = map (\<lambda>c. (c, votes_for s c)) (map fst (results r))"
    by (simp add: comp_def)
  then show "results r = map (\<lambda>c. (c, votes_for s c)) (rev (remdups (rev (candidates s))))"
    by (simp add: keys)
  from cv show "sum_list (map snd (results r)) = length (committed_votes s)"
    by (simp add: zero_counts_sum)
qed

text \<open>
  C6: in a result of \<open>get_election_results\<close>, \<open>total_votes\<close> is the sum of the counters;
  the counter of each configured candidate is the number of committed votes for that
  candidate over all blocks; and \<open>total_votes\<close> is the number of votes over all blocks.
\<close>

theorem tally_counts:
  assumes "fst (get_election_results fc s) = Inr r"
  shows "total_votes r = sum_list (map snd (results r))
       \<and> fst ` set (results r) = set (candidates s)
       \<and> (\<forall>c \<in> set (candidates s). dict_get (results r) c = Some (votes_for s c))
       \<and> total_votes r = (\<Sum>c \<in> set (candidates s). votes_for s c)
       \<and> total_votes r = length (committed_votes s)"
proof -
  note rc = results_counts [OF assms]
  have 1: "total_votes r = sum_list (map snd (results r))" by (rule results_Inr(3) [OF assms])
  have 2: "fst ` set (results r) = set (candidates s)"
    using rc(1) by (metis list.set_map set_remdups set_rev)
  have 3: "\<forall>c \<in> set (candidates s). dict_get (results r) c = Some (votes_for s c)"
    using rc(2) by blast
  have "sum_list (map snd (results r))
        = sum_list (map (votes_for s) (rev (remdups (rev (candidates s)))))"
    by (subst rc(3)) (simp add: comp_def)
  also have "\<dots> = (\<Sum>c \<in> set (rev (remdups (rev (candidates s)))). votes_for s c)"
    by (rule sum_list_distinct_conv_sum_set) simp
  finally have 4: "total_votes r = (\<Sum>c \<in> set (candidates s). votes_for s c)"
    using 1 by simp
  have 5: "total_votes r = length (committed_votes s)" using 1 rc(4) by simp
  from 1 2 3 4 5 show ?thesis by blast
qed

lemma first_maximum_candidates:
  assumes "fst (get_election_results fc s) = Inr r"
  shows "\<exists>pre post. rev (remdups (rev (candidates s))) = pre @ winner r # post
           \<and> (\<forall>c \<in> set pre. votes_for s c < votes_for s (winner r))
           \<and> (\<forall>c \<in> set post. votes_for s c \<le> votes_for s (winner r))"
proof -
  let ?K = "rev (remdups (rev (candidates s)))"
  let ?f = "\<lambda>c. (c, votes_for s c)"
  note rc = results_counts [OF assms]
  have "distinct (map fst (results r))" by (simp add: rc(1))
  from max_key_first [OF this results_Inr(2) [OF assms]]
  obtain pre' n post' where d: "results r = pre' @ (winner r, n) # post'"
    and lt: "\<forall>(k, v) \<in> set pre'. v < n" and le: "\<forall>(k, v) \<in> set post'. v \<le> n" by blast
  from d rc(3) have "map ?f ?K = pre' @ (winner r, n) # post'" by simp
  then obtain K1 K2 where K: "?K = K1 @ K2" and pre': "pre' = map ?f K1"
    and K2: "map ?f K2 = (winner r, n) # post'"
    by (auto simp: map_eq_append_conv)
  from K2 obtain k K3 where K2': "K2 = k # K3" and k: "?f k = (winner r, n)"
    and post': "post' = map ?f K3"
    by (auto simp: map_eq_Cons_conv)
  from k have w: "k = winner r" and n: "n = votes_for s (winner r)" by auto
  have 1: "?K = K1 @ winner r # K3" using K K2' w by simp
  have 2: "\<forall>c \<in> set K1. votes_for s c < votes_for s (winner r)"
    using lt pre' n by auto
  have 3: "\<forall>c \<in> set K3. votes_for s c \<le> votes_for s (winner r)"
    using le post' n by auto
  from 1 2 3 show ?thesis by blast
qed

lemma winner_in:
  assumes "fst (get_election_results fc s) = Inr r"
  shows "winner r \<in> set (candidates s)"
proof -
  from first_maximum_candidates [OF assms]
  obtain pre post where "rev (remdups (rev (candidates s))) = pre @ winner r # post" by blast
  then have "winner r \<in> set (rev (remdups (rev (candidates s))))" by simp
  then show ?thesis by simp
qed

lemma results_ok:
  assumes "candidate ` set (committed_votes s) \<subseteq> set (candidates s)" and "candidates s \<noteq> []"
  shows "\<exists>r. fst (get_election_results fc s) = Inr r"
proof -
  from assms(1) have "candidate ` set (committed_votes s) \<subseteq> fst ` set (zero_counts (candidates s))"
    by (simp add: zero_counts_key_set)
  then obtain d where d: "count_votes (committed_votes s) (zero_counts (candidates s)) = Inr d"
    using count_votes_ok by blast
  from count_votes_Inr [OF d] have "map fst d = rev (remdups (rev (candidates s)))"
    by (simp add: zero_counts_keys)
  with assms(2) have "d \<noteq> []" by auto
  then obtain w where "max_key d = Inr w" using max_key_ok by blast
  with d show ?thesis by (simp add: get_election_results_def count_blocks_committed)
qed

lemma results_returned_iff:
  "(\<exists>r. fst (get_election_results fc s) = Inr r)
     = (candidate ` set (committed_votes s) \<subseteq> set (candidates s) \<and> candidates s \<noteq> [])"
proof
  assume "\<exists>r. fst (get_election_results fc s) = Inr r"
  then obtain r where r: "fst (get_election_results fc s) = Inr r" by blast
  from count_votes_Inr [OF results_Inr(1) [OF r]]
  have "candidate ` set (committed_votes s) \<subseteq> fst ` set (zero_counts (candidates s))" by blast
  then have 1: "candidate ` set (committed_votes s) \<subseteq> set (candidates s)"
    by (simp add: zero_counts_key_set)
  from winner_in [OF r] have 2: "candidates s \<noteq> []" by auto
  from 1 2 show "candidate ` set (committed_votes s) \<subseteq> set (candidates s) \<and> candidates s \<noteq> []"
    by blast
next
  assume "candidate ` set (committed_votes s) \<subseteq> set (candidates s) \<and> candidates s \<noteq> []"
  then show "\<exists>r. fst (get_election_results fc s) = Inr r" using results_ok by blast
qed

lemma winner_properties:
  assumes "fst (get_election_results fc s) = Inr r"
  shows "winner r \<in> set (candidates s)
       \<and> (\<forall>c \<in> set (candidates s). votes_for s c \<le> votes_for s (winner r))
       \<and> (\<exists>pre post. rev (remdups (rev (candidates s))) = pre @ winner r # post
             \<and> (\<forall>c \<in> set pre. votes_for s c < votes_for s (winner r))
             \<and> (\<forall>c \<in> set post. votes_for s c \<le> votes_for s (winner r)))
       \<and> ((\<forall>c \<in> set (candidates s). c \<noteq> winner r \<longrightarrow> votes_for s c \<noteq> votes_for s (winner r))
            \<longrightarrow> (\<forall>c \<in> set (candidates s). c \<noteq> winner r \<longrightarrow> votes_for s c < votes_for s (winner r)))"
proof -
  from first_maximum_candidates [OF assms]
  obtain pre post where K: "rev (remdups (rev (candidates s))) = pre @ winner r # post"
    and lt: "\<forall>c \<in> set pre. votes_for s c < votes_for s (winner r)"
    and le: "\<forall>c \<in> set post. votes_for s c \<le> votes_for s (winner r)" by blast
  have "set (candidates s) = set (rev (remdups (rev (candidates s))))" by simp
  then have set_eq: "set (candidates s) = set pre \<union> {winner r} \<union> set post"
    unfolding K by auto
  then have 1: "winner r \<in> set (candidates s)" by simp
  have 2: "\<forall>c \<in> set (candidates s). votes_for s c \<le> votes_for s (winner r)"
  proof
    fix c assume "c \<in> set (candidates s)"
    with set_eq have "c \<in> set pre \<or> c = winner r \<or> c \<in> set post" by auto
    with lt le show "votes_for s c \<le> votes_for s (winner r)" by (auto simp: less_imp_le)
  qed
  have 3: "(\<forall>c \<in> set (candidates s). c \<noteq> winner r \<longrightarrow> votes_for s c \<noteq> votes_for s (winner r))
            \<longrightarrow> (\<forall>c \<in> set (candidates s). c \<noteq> winner r \<longrightarrow> votes_for s c < votes_for s (winner r))"
    using 2 by (simp add: le_neq_implies_less)
  from 1 2 3 K lt le show ?thesis by blast
qed

text \<open>
  C7: in every state in which \<open>get_election_results\<close> can return, that is, when every
  committed vote names a configured candidate and there is a candidate, it does return a
  result, and the winner of that result is a configured candidate with the greatest number
  of committed votes. In the order in which the candidates were first listed, which is the
  order of the keys of the counters, every candidate before the winner has strictly fewer
  votes and every candidate after it has no more: the winner is the first candidate that
  reaches the maximum, also when it is not the first candidate listed. When no other
  candidate has the winner's count, every other candidate has strictly fewer votes. The
  result is the same for both values of \<open>force_close\<close>.
\<close>

theorem winner_first_maximum:
  assumes "candidate ` set (committed_votes s) \<subseteq> set (candidates s)" and "candidates s \<noteq> []"
  shows "\<exists>r. fst (get_election_results fc s) = Inr r
       \<and> fst (get_election_results (\<not> fc) s) = Inr r
       \<and> winner r \<in> set (candidates s)
       \<and> (\<forall>c \<in> set (candidates s). votes_for s c \<le> votes_for s (winner r))
       \<and> (\<exists>pre post. rev (remdups (rev (candidates s))) = pre @ winner r # post
             \<and> (\<forall>c \<in> set pre. votes_for s c < votes_for s (winner r))
             \<and> (\<forall>c \<in> set post. votes_for s c \<le> votes_for s (winner r)))
       \<and> ((\<forall>c \<in> set (candidates s). c \<noteq> winner r \<longrightarrow> votes_for s c \<noteq> votes_for s (winner r))
            \<longrightarrow> (\<forall>c \<in> set (candidates s). c \<noteq> winner r \<longrightarrow> votes_for s c < votes_for s (winner r)))"
proof -
  from results_ok [OF assms] obtain r where r: "fst (get_election_results fc s) = Inr r"
    by blast
  have "get_election_results (\<not> fc) s = get_election_results fc s"
    by (simp add: get_election_results_def)
  with r have r': "fst (get_election_results (\<not> fc) s) = Inr r" by simp
  from r r' winner_properties [OF r] show ?thesis by blast
qed

text \<open>
  C9: \<open>get_election_results\<close> returns the same for both values of \<open>force_close\<close>, leaves
  the state as it is, and its result does not depend on the start or the end of the
  election; it reads no clock.
\<close>

theorem results_ignore_force_close:
  "get_election_results True s = get_election_results False s
   \<and> snd (get_election_results fc s) = s
   \<and> fst (get_election_results fc (s\<lparr>election_start := t1, election_end := t2\<rparr>))
       = fst (get_election_results fc s)"
  by (simp add: get_election_results_def split: sum.splits)

subsection \<open>Elections without candidates, and without votes\<close>

lemma last_remdups: "xs \<noteq> [] \<Longrightarrow> last (remdups xs) = last xs"
proof (induction xs)
  case Nil
  then show ?case by simp
next
  case (Cons x xs)
  show ?case
  proof (cases "xs = []")
    case True
    then show ?thesis by simp
  next
    case False
    then have ne: "remdups xs \<noteq> []" by simp
    from False Cons.IH have ih: "last (remdups xs) = last xs" by simp
    have "last (remdups (x # xs)) = last (remdups xs)"
      using ne by (cases "x \<in> set xs") simp_all
    with ih False show ?thesis by simp
  qed
qed

lemma hd_first_occurrences: "cs \<noteq> [] \<Longrightarrow> hd (rev (remdups (rev cs))) = hd cs"
proof -
  assume ne: "cs \<noteq> []"
  have "hd (rev (remdups (rev cs))) = last (remdups (rev cs))" by (rule hd_rev)
  also have "\<dots> = last (rev cs)" by (rule last_remdups) (simp add: ne)
  also have "\<dots> = hd cs" by (rule last_rev)
  finally show ?thesis .
qed

lemma no_candidates_fails:
  assumes "candidates s = []"
  shows "isl (fst (get_election_results fc s))"
proof (cases "committed_votes s")
  case Nil
  with assms show ?thesis
    by (simp add: get_election_results_def count_blocks_committed zero_counts_Nil max_key_def)
next
  case (Cons v vs)
  with assms show ?thesis
    by (simp add: get_election_results_def count_blocks_committed zero_counts_Nil increment_def)
qed

lemma no_votes_winner:
  assumes "fst (get_election_results fc s) = Inr r" and "committed_votes s = []"
  shows "winner r = hd (candidates s)"
proof -
  from first_maximum_candidates [OF assms(1)]
  obtain pre post where K: "rev (remdups (rev (candidates s))) = pre @ winner r # post"
    and lt: "\<forall>c \<in> set pre. votes_for s c < votes_for s (winner r)" by blast
  from assms(2) have "votes_for s c = 0" for c by (simp add: votes_for_def)
  with lt have "pre = []" by (cases pre) auto
  with K have k: "rev (remdups (rev (candidates s))) = winner r # post" by simp
  then have "candidates s \<noteq> []" by auto
  from hd_first_occurrences [OF this] k show ?thesis by simp
qed

text \<open>
  C10: with an empty candidate list, \<open>get_election_results\<close> fails in every state, and in
  every state reached from the initialisation it fails with the \<open>ValueError\<close> of \<open>max\<close> on an
  empty dict. With a non-empty candidate list, in every state reached from the
  initialisation it returns a result whose winner is a configured candidate; when no vote
  is committed, the winner is the first candidate of the list.
\<close>

theorem results_need_candidates:
  assumes "init t1 t2 t3 name cands days = Inr s0" and "s = run h calls s0"
  shows "(cands = [] \<longrightarrow>
            fst (get_election_results fc s) = Inl (ValueError ''max() arg is an empty sequence''))
       \<and> (cands \<noteq> [] \<longrightarrow>
            (\<exists>r. fst (get_election_results fc s) = Inr r \<and> winner r \<in> set cands
                 \<and> (committed_votes s = [] \<longrightarrow> winner r = hd cands)))
       \<and> (\<forall>s'. candidates s' = [] \<longrightarrow> isl (fst (get_election_results fc s')))"
proof -
  from init_Inr [OF assms(1)] have "candidates s0 = cands" by auto
  then have cands: "candidates s = cands" by (simp add: assms(2) run_candidates)
  have "consistent s" unfolding assms(2) by (rule run_consistent) (rule init_consistent [OF assms(1)])
  then have sub: "candidate ` set (committed_votes s) \<subseteq> set (candidates s)"
    by (rule consistent_committed)
  have 1: "fst (get_election_results fc s) = Inl (ValueError ''max() arg is an empty sequence'')"
    if "cands = []"
  proof -
    from that sub cands have "committed_votes s = []" by simp
    with that cands show ?thesis
      by (simp add: get_election_results_def count_blocks_committed zero_counts_Nil max_key_def)
  qed
  have 2: "\<exists>r. fst (get_election_results fc s) = Inr r \<and> winner r \<in> set cands
                 \<and> (committed_votes s = [] \<longrightarrow> winner r = hd cands)"
    if "cands \<noteq> []"
  proof -
    from results_ok [OF sub] that cands obtain r where r: "fst (get_election_results fc s) = Inr r"
      by auto
    from winner_in [OF r] cands have "winner r \<in> set cands" by simp
    moreover from no_votes_winner [OF r] cands
    have "committed_votes s = [] \<longrightarrow> winner r = hd cands" by simp
    ultimately show ?thesis using r by blast
  qed
  from 1 2 no_candidates_fails show ?thesis by blast
qed

subsection \<open>The election of \<^verbatim>\<open>main()\<close>\<close>

lemma demo_final_chain:
  "chain demo_final =
     [\<lparr>index = 1, block_timestamp = 0, votes = 1, block_proof = 100,
       previous_hash = ''0'', block_election_name = ''Student Council Election''\<rparr>,
      \<lparr>index = 2, block_timestamp = 6, votes = 3, block_proof = 2,
       previous_hash = ''prev'', block_election_name = ''Student Council Election''\<rparr>]"
  by (simp add: demo_final_def run_def demo_election_eq cast_vote_cases create_block_eq)

lemma demo_final_candidates: "candidates demo_final = [''Alice'', ''Bob'', ''Charlie'']"
  by (simp add: demo_final_def run_candidates demo_candidates)

lemma demo_final_name: "election_name demo_final = ''Student Council Election''"
  by (simp add: demo_final_def run_election_name demo_election_eq)

lemma demo_final_genesis: "store demo_final (Suc 0) = []"
  by (simp add: demo_final_def run_def demo_election_eq cast_vote_cases create_block_eq)

lemma demo_final_block:
  "store demo_final 3 =
     [\<lparr>voter_id = hash_voter_id sample_digest ''voter1@school.edu'', candidate = ''Alice'', timestamp = 1\<rparr>,
      \<lparr>voter_id = hash_voter_id sample_digest ''voter2@school.edu'', candidate = ''Bob'', timestamp = 2\<rparr>,
      \<lparr>voter_id = hash_voter_id sample_digest ''voter3@school.edu'', candidate = ''Charlie'', timestamp = 3\<rparr>,
      \<lparr>voter_id = hash_voter_id sample_digest ''voter4@school.edu'', candidate = ''Alice'', timestamp = 4\<rparr>,
      \<lparr>voter_id = hash_voter_id sample_digest ''voter5@school.edu'', candidate = ''Bob'', timestamp = 5\<rparr>]"
  by (simp add: demo_final_def run_def demo_election_eq cast_vote_cases create_block_eq)

lemma demo_final_results:
  "fst (get_election_results True demo_final) =
     Inr \<lparr>result_election_name = ''Student Council Election'', total_votes = 5,
          results = [(''Alice'', 2), (''Bob'', 2), (''Charlie'', 1)], winner = ''Alice''\<rparr>"
  by (simp add: get_election_results_def demo_final_chain demo_final_candidates demo_final_name
        demo_final_genesis demo_final_block zero_counts_def increment_def max_key_def)

theorem tally_counts_witness:
  "fst (get_election_results True demo_final) =
     Inr \<lparr>result_election_name = ''Student Council Election'', total_votes = 5,
          results = [(''Alice'', 2), (''Bob'', 2), (''Charlie'', 1)], winner = ''Alice''\<rparr>
   \<and> votes_for demo_final ''Alice'' = 2 \<and> votes_for demo_final ''Bob'' = 2
   \<and> votes_for demo_final ''Charlie'' = 1 \<and> length (committed_votes demo_final) = 5"
  using tally_counts [OF demo_final_results] demo_final_results
  by (simp add: demo_final_candidates)

lemma demo_later_chain:
  "chain demo_later =
     [\<lparr>index = 1, block_timestamp = 0, votes = 1, block_proof = 100,
       previous_hash = ''0'', block_election_name = ''Student Council Election''\<rparr>,
      \<lparr>index = 2, block_timestamp = 3, votes = 3, block_proof = 2,
       previous_hash = ''prev'', block_election_name = ''Student Council Election''\<rparr>,
      \<lparr>index = 3, block_timestamp = 7, votes = 5, block_proof = 8,
       previous_hash = ''prev2'', block_election_name = ''Student Council Election''\<rparr>]"
  by (simp add: demo_later_def run_def demo_election_eq cast_vote_cases create_block_eq)

lemma demo_later_candidates: "candidates demo_later = [''Alice'', ''Bob'', ''Charlie'']"
  by (simp add: demo_later_def run_candidates demo_candidates)

lemma demo_later_name: "election_name demo_later = ''Student Council Election''"
  by (simp add: demo_later_def run_election_name demo_election_eq)

lemma demo_later_genesis: "store demo_later (Suc 0) = []"
  by (simp add: demo_later_def run_def demo_election_eq cast_vote_cases create_block_eq)

lemma demo_later_block2:
  "store demo_later 3 =
     [\<lparr>voter_id = hash_voter_id sample_digest ''voter1@school.edu'', candidate = ''Bob'', timestamp = 1\<rparr>,
      \<lparr>voter_id = hash_voter_id sample_digest ''voter2@school.edu'', candidate = ''Charlie'', timestamp = 2\<rparr>]"
  by (simp add: demo_later_def run_def demo_election_eq cast_vote_cases create_block_eq)

lemma demo_later_block3:
  "store demo_later 5 =
     [\<lparr>voter_id = hash_voter_id sample_digest ''voter3@school.edu'', candidate = ''Charlie'', timestamp = 4\<rparr>,
      \<lparr>voter_id = hash_voter_id sample_digest ''voter4@school.edu'', candidate = ''Alice'', timestamp = 5\<rparr>,
      \<lparr>voter_id = hash_voter_id sample_digest ''voter5@school.edu'', candidate = ''Bob'', timestamp = 6\<rparr>]"
  by (simp add: demo_later_def run_def demo_election_eq cast_vote_cases create_block_eq)

lemma demo_later_results:
  "fst (get_election_results False demo_later) =
     Inr \<lparr>result_election_name = ''Student Council Election'', total_votes = 5,
          results = [(''Alice'', 1), (''Bob'', 2), (''Charlie'', 2)], winner = ''Bob''\<rparr>"
  by (simp add: get_election_results_def demo_later_chain demo_later_candidates demo_later_name
        demo_later_genesis demo_later_block2 demo_later_block3 zero_counts_def increment_def
        max_key_def)

lemma demo_later_votes:
  "votes_for demo_later ''Alice'' = 1 \<and> votes_for demo_later ''Bob'' = 2
   \<and> votes_for demo_later ''Charlie'' = 2"
  by (simp add: votes_for_def committed_votes_def demo_later_chain demo_later_genesis
        demo_later_block2 demo_later_block3)

lemma demo_later_committed:
  "candidate ` set (committed_votes demo_later) \<subseteq> set (candidates demo_later)"
  unfolding demo_later_def
  by (intro consistent_committed run_consistent init_consistent [OF demo_init])

lemma demo_final_committed:
  "candidate ` set (committed_votes demo_final) \<subseteq> set (candidates demo_final)"
  unfolding demo_final_def
  by (intro consistent_committed run_consistent init_consistent [OF demo_init])

theorem winner_first_maximum_witness:
  "candidate ` set (committed_votes demo_later) \<subseteq> set (candidates demo_later)
   \<and> candidates demo_later \<noteq> []
   \<and> fst (get_election_results False demo_later) =
       Inr \<lparr>result_election_name = ''Student Council Election'', total_votes = 5,
            results = [(''Alice'', 1), (''Bob'', 2), (''Charlie'', 2)], winner = ''Bob''\<rparr>
   \<and> fst (get_election_results True demo_later) = fst (get_election_results False demo_later)
   \<and> votes_for demo_later ''Alice'' = 1 \<and> votes_for demo_later ''Bob'' = 2
   \<and> votes_for demo_later ''Charlie'' = 2
   \<and> votes_for demo_later ''Alice'' \<le> votes_for demo_later ''Bob''
   \<and> votes_for demo_later ''Charlie'' \<le> votes_for demo_later ''Bob''
   \<and> candidate ` set (committed_votes demo_final) \<subseteq> set (candidates demo_final)
   \<and> candidates demo_final \<noteq> []
   \<and> fst (get_election_results True demo_final) =
       Inr \<lparr>result_election_name = ''Student Council Election'', total_votes = 5,
            results = [(''Alice'', 2), (''Bob'', 2), (''Charlie'', 1)], winner = ''Alice''\<rparr>
   \<and> votes_for demo_final ''Bob'' \<le> votes_for demo_final ''Alice''
   \<and> votes_for demo_final ''Charlie'' \<le> votes_for demo_final ''Alice''"
proof -
  have ne1: "candidates demo_later \<noteq> []" by (simp add: demo_later_candidates)
  have ne2: "candidates demo_final \<noteq> []" by (simp add: demo_final_candidates)
  from winner_first_maximum [OF demo_later_committed ne1, of False]
  obtain r where r: "fst (get_election_results False demo_later) = Inr r"
    and r': "fst (get_election_results (\<not> False) demo_later) = Inr r"
    and le: "\<forall>c \<in> set (candidates demo_later).
               votes_for demo_later c \<le> votes_for demo_later (winner r)"
    by blast
  from r demo_later_results have w: "winner r = ''Bob''" by auto
  from r r' have same:
    "fst (get_election_results True demo_later) = fst (get_election_results False demo_later)"
    by simp
  from le w have 1: "votes_for demo_later ''Alice'' \<le> votes_for demo_later ''Bob''"
    and 2: "votes_for demo_later ''Charlie'' \<le> votes_for demo_later ''Bob''"
    by (simp_all add: demo_later_candidates)
  from winner_first_maximum [OF demo_final_committed ne2, of True]
  obtain q where q: "fst (get_election_results True demo_final) = Inr q"
    and le2: "\<forall>c \<in> set (candidates demo_final).
               votes_for demo_final c \<le> votes_for demo_final (winner q)"
    by blast
  from q demo_final_results have w2: "winner q = ''Alice''" by auto
  from le2 w2 have 3: "votes_for demo_final ''Bob'' \<le> votes_for demo_final ''Alice''"
    and 4: "votes_for demo_final ''Charlie'' \<le> votes_for demo_final ''Alice''"
    by (simp_all add: demo_final_candidates)
  from demo_later_committed ne1 demo_later_results same demo_later_votes 1 2
    demo_final_committed ne2 demo_final_results 3 4
  show ?thesis by blast
qed

lemma empty_init: "init 0 0 0 ''No candidates'' [] 7 = Inr empty_election"
  by (simp add: empty_election_def init_def timedelta_days_def datetime_add_def)

theorem results_need_candidates_witness:
  "init 0 0 0 ''No candidates'' [] 7 = Inr empty_election
   \<and> fst (get_election_results False
        (run sample_digest [Cast_vote 1 ''voter1'' ''Alice'', Create_block 2 2 ''prev''] empty_election))
       = Inl (ValueError ''max() arg is an empty sequence'')
   \<and> init 0 0 0 ''Student Council Election'' [''Alice'', ''Bob'', ''Charlie''] 7 = Inr demo_election
   \<and> committed_votes (run sample_digest [Cast_vote 1 ''voter2'' ''Bob''] demo_election) = []
   \<and> (\<exists>r. fst (get_election_results False
               (run sample_digest [Cast_vote 1 ''voter2'' ''Bob''] demo_election)) = Inr r
          \<and> winner r = ''Alice'')"
proof -
  have nil: "([]::string list) = []" by simp
  have ne: "[''Alice'', ''Bob'', ''Charlie''] \<noteq> []" by simp
  have cv: "committed_votes (run sample_digest [Cast_vote 1 ''voter2'' ''Bob''] demo_election) = []"
    by (simp add: committed_votes_def run_def demo_election_eq cast_vote_cases)
  from results_need_candidates [where h = sample_digest
      and calls = "[Cast_vote 1 ''voter1'' ''Alice'', Create_block 2 2 ''prev'']" and fc = False,
      OF empty_init refl] nil
  have 1: "fst (get_election_results False
        (run sample_digest [Cast_vote 1 ''voter1'' ''Alice'', Create_block 2 2 ''prev''] empty_election))
       = Inl (ValueError ''max() arg is an empty sequence'')" by blast
  from results_need_candidates [where h = sample_digest
      and calls = "[Cast_vote 1 ''voter2'' ''Bob'']" and fc = False, OF demo_init refl] ne cv
  have 2: "\<exists>r. fst (get_election_results False
               (run sample_digest [Cast_vote 1 ''voter2'' ''Bob''] demo_election)) = Inr r
          \<and> winner r = ''Alice''" by auto
  from empty_init demo_init cv 1 2 show ?thesis by blast
qed

end
